theory Spec2Isabelle
  imports Main "HOL-Library.Word"
begin

unbundle bit_operations_syntax

section \<open>The firmware of src/firmware/main.c\<close>

text \<open>
  The firmware has two execution contexts: the polling loop of \<open>main\<close>, which decodes
  the bytes the host sends, and the interrupt routine \<open>isr\<close>, which shifts the LED
  array out through the SPI peripheral. Both are embedded as functions on one record
  holding the locals of \<open>main\<close>, the file's globals, the statics of \<open>isr\<close> and the
  hardware registers the code touches. An access through a null pointer or outside an
  array is undefined in C; the model returns \<open>None\<close> there.
\<close>

type_synonym u8 = "8 word"
type_synonym u16 = "16 word"

definition LED_COUNT :: nat where
  "LED_COUNT = 128"

text \<open>\<open>struct ws_led_struct { uint8_t g, r, b; }\<close>: three bytes, green first.\<close>

record ws_led_struct =
  g :: u8
  r :: u8
  b :: u8

text \<open>
  \<open>wptr\<close> and \<open>isr_ptr\<close> are \<open>uint8_t *\<close> into \<open>leds\<close>: a pointer is the byte offset
  from \<open>(uint8_t *)leds\<close>, and \<open>None\<close> is \<open>NULL\<close>. Byte \<open>p\<close> of the array is channel
  \<open>p mod 3\<close> (0 = g, 1 = r, 2 = b) of entry \<open>p div 3\<close>.
\<close>

definition led_load :: "nat \<Rightarrow> ws_led_struct list \<Rightarrow> u8" where
  "led_load p ls =
     (if p mod 3 = 0 then g (ls ! (p div 3))
      else if p mod 3 = 1 then r (ls ! (p div 3))
      else b (ls ! (p div 3)))"

definition led_store :: "nat \<Rightarrow> u8 \<Rightarrow> ws_led_struct list \<Rightarrow> ws_led_struct list" where
  "led_store p v ls =
     ls[p div 3 :=
       (if p mod 3 = 0 then (ls ! (p div 3))\<lparr>g := v\<rparr>
        else if p mod 3 = 1 then (ls ! (p div 3))\<lparr>r := v\<rparr>
        else (ls ! (p div 3))\<lparr>b := v\<rparr>)]"

record sys =
  \<comment> \<open>locals of \<open>main\<close>\<close>
  command :: u8
  color_index :: u8
  current_byte :: u8
  previous_byte :: u8
  led_index :: u8
  data_remaining :: u16
  wptr :: "nat option"
  toPC_count :: u8
  \<comment> \<open>the transport's endpoint 2 IN buffer (\<open>usb_get_in_buffer(2)\<close>) and what
      \<open>usb_send_in_buffer\<close> has handed to the host so far\<close>
  in_buf :: "u8 list"
  to_host :: "u8 list list"
  \<comment> \<open>globals\<close>
  leds :: "ws_led_struct list"
  isr_ptr :: "nat option"
  \<comment> \<open>statics of \<open>isr\<close>; \<open>isr_current_byte\<close> is its own \<open>current_byte\<close>\<close>
  bit_position :: u8
  byte_count :: u16
  isr_current_byte :: u8
  \<comment> \<open>hardware: INTCON.GIE, PIR1.SSP1IF, the values written to SSP1BUF so far, and
      whether the SPI peripheral is shifting a byte out\<close>
  GIE :: bool
  SSP1IF :: bool
  SSP1BUF :: "u8 list"
  spi_busy :: bool

subsection \<open>The decoder: the body of the \<open>for\<close> loop of \<open>main\<close>\<close>

definition poke :: "nat \<Rightarrow> u8 \<Rightarrow> sys \<Rightarrow> sys option" where
  "poke p v s =
     (if p < LED_COUNT * 3 \<and> length (leds s) = LED_COUNT
      then Some (s\<lparr>leds := led_store p v (leds s)\<rparr>) else None)"

text \<open>Lines 117-135: \<open>if (wptr) switch (color_index) ...\<close>.\<close>

definition store_color :: "sys \<Rightarrow> sys option" where
  "store_color s =
     (case wptr s of
        None \<Rightarrow> Some s
      | Some p \<Rightarrow>
          if color_index s = 0 then poke (p + 1) (current_byte s) s
          else if color_index s = 1 then poke (p + 0) (current_byte s) s
          else if color_index s = 2 then
            map_option (\<lambda>t. t\<lparr>wptr := Some (p + 3)\<rparr>) (poke (p + 2) (current_byte s) s)
          else Some s)"

text \<open>Lines 143-145: \<open>isr_ptr = (uint8_t *)leds; INTCONbits.GIE = 1; SSP1BUF = 0x00;\<close>.\<close>

definition handoff :: "sys \<Rightarrow> sys" where
  "handoff s = s\<lparr>isr_ptr := Some 0, GIE := True, SSP1BUF := SSP1BUF s @ [0], spi_busy := True\<rparr>"

text \<open>Lines 149-158: the colour phase, the LED index and the overflow guard.\<close>

definition next_color :: "sys \<Rightarrow> sys" where
  "next_color s =
     (let s1 = s\<lparr>color_index := color_index s + 1\<rparr> in
      if color_index s1 = 3 then
        (let s2 = s1\<lparr>color_index := 0, led_index := led_index s1 + 1\<rparr> in
         if led_index s2 = of_nat LED_COUNT then s2\<lparr>wptr := None\<rparr> else s2)
      else s1)"

text \<open>Line 163: \<open>in_buf[toPC_count++] = 0xFF\<close>.\<close>

definition ack :: "sys \<Rightarrow> sys option" where
  "ack s =
     (if unat (toPC_count s) < length (in_buf s)
      then Some (s\<lparr>in_buf := (in_buf s)[unat (toPC_count s) := 0xFF],
                   toPC_count := toPC_count s + 1\<rparr>)
      else None)"

text \<open>Lines 111-163: the branch taken when \<open>data_remaining\<close> is not zero.\<close>

definition pixel_byte :: "sys \<Rightarrow> sys option" where
  "pixel_byte s =
     (case store_color s of
        None \<Rightarrow> None
      | Some t \<Rightarrow> Some (next_color (if data_remaining t = 0 then handoff t else t)))"

definition payload_byte :: "sys \<Rightarrow> sys option" where
  "payload_byte s0 =
     (let s = s0\<lparr>data_remaining := data_remaining s0 - 1\<rparr> in
      case (if command s = 2 then pixel_byte s else Some s) of
        None \<Rightarrow> None
      | Some t \<Rightarrow> if data_remaining t = 0 then ack t else Some t)"

text \<open>Lines 167-186: \<open>switch (index)\<close>, taken when \<open>data_remaining\<close> is zero.\<close>

definition header_byte :: "nat \<Rightarrow> sys \<Rightarrow> sys" where
  "header_byte index s =
     (if index = 0 then s\<lparr>command := current_byte s, color_index := 0, led_index := 0, wptr := Some 0\<rparr>
      else if index = 1 then s
      else if index = 2 then
        s\<lparr>data_remaining := push_bit 8 (ucast (current_byte s)) OR ucast (previous_byte s)\<rparr>
      else s)"

definition decode_byte :: "nat \<Rightarrow> u8 \<Rightarrow> sys \<Rightarrow> sys option" where
  "decode_byte index x s0 =
     (let s = s0\<lparr>previous_byte := current_byte s0, current_byte := x\<rparr> in
      if data_remaining s \<noteq> 0 then payload_byte s else Some (header_byte index s))"

text \<open>
  \<open>for (index = 0; index < fromPC_count; index++)\<close> over the chunk
  \<open>out_buf[0 .. fromPC_count)\<close>. \<open>fromPC_count\<close> and \<open>index\<close> are \<open>uint8_t\<close>, so a
  chunk has at most 255 bytes and \<open>index\<close> never wraps; it is a \<open>nat\<close> here.
\<close>

fun chunk_loop :: "nat \<Rightarrow> u8 list \<Rightarrow> sys \<Rightarrow> sys option" where
  "chunk_loop index [] s = Some s"
| "chunk_loop index (x # xs) s =
     (case decode_byte index x s of
        None \<Rightarrow> None
      | Some t \<Rightarrow> chunk_loop (Suc index) xs t)"

subsection \<open>One iteration of the polling loop\<close>

text \<open>
  What the transport answers in one iteration: not configured or the IN endpoint halted
  or busy (\<open>continue\<close> at lines 81-86), nothing received (\<open>continue\<close> at line 100), or
  a received chunk.
\<close>

datatype usb_poll = NotReady | NoOutData | OutData "u8 list"

text \<open>Lines 92-96: pending acknowledgments go to the host.\<close>

definition flush_in :: "sys \<Rightarrow> sys" where
  "flush_in s =
     (if toPC_count s > 0
      then s\<lparr>to_host := to_host s @ [take (unat (toPC_count s)) (in_buf s)], toPC_count := 0\<rparr>
      else s)"

definition main_iteration :: "usb_poll \<Rightarrow> sys \<Rightarrow> sys option" where
  "main_iteration ev s =
     (case ev of
        NotReady \<Rightarrow> Some s
      | NoOutData \<Rightarrow> Some (flush_in s)
      | OutData out_buf \<Rightarrow> chunk_loop 0 out_buf (flush_in s))"

subsection \<open>The emitter: \<open>isr\<close>\<close>

text \<open>Lines 226-227: \<open>current_byte = *isr_ptr++; byte_count++;\<close>.\<close>

definition load_next :: "sys \<Rightarrow> sys option" where
  "load_next s =
     (case isr_ptr s of
        None \<Rightarrow> None
      | Some p \<Rightarrow>
          if p < LED_COUNT * 3 \<and> length (leds s) = LED_COUNT
          then Some (s\<lparr>isr_current_byte := led_load p (leds s), isr_ptr := Some (p + 1),
                       byte_count := byte_count s + 1\<rparr>)
          else None)"

text \<open>Lines 231-235: one pattern goes to the SPI peripheral.\<close>

definition emit_bit :: "sys \<Rightarrow> sys" where
  "emit_bit s =
     s\<lparr>SSP1BUF := SSP1BUF s @ [if isr_current_byte s AND 0x80 \<noteq> 0 then 0xFF else 0xF0],
       spi_busy := True,
       isr_current_byte := push_bit 1 (isr_current_byte s),
       bit_position := (bit_position s + 1) AND 7\<rparr>"

text \<open>
  Lines 195-237: \<open>isr\<close>. At the start of a byte it either ends the pass (all
  \<open>LED_COUNT * sizeof(struct ws_led_struct)\<close> bytes are out) or loads the next byte.
\<close>

definition isr :: "sys \<Rightarrow> sys option" where
  "isr s0 =
     (if SSP1IF s0 then
        (let s = s0\<lparr>SSP1IF := False\<rparr> in
         if bit_position s = 0 then
           (if byte_count s = of_nat (LED_COUNT * 3)
            then Some (s\<lparr>GIE := False, byte_count := 0\<rparr>)
            else map_option emit_bit (load_next s))
         else Some (emit_bit s))
      else Some s0)"

text \<open>
  The peripheral, as far as the code relies on it: a write to SSP1BUF starts shifting one
  byte out; when the byte is out the peripheral raises SSP1IF, and with GIE set (PEIE and
  SSP1IE are set once at lines 64-65 and never cleared) the processor enters \<open>isr\<close>.
  GIE is the bit as the C code writes and reads it: set at line 144, cleared at line 220.
  What the processor itself does to the bit on interrupt entry and return is not part of
  the model, and neither is time: when a transfer completes is up to the environment.
\<close>

definition spi_done :: "sys \<Rightarrow> sys option" where
  "spi_done s =
     (if spi_busy s then
        (let s1 = s\<lparr>spi_busy := False, SSP1IF := True\<rparr> in
         if GIE s1 then isr s1 else Some s1)
      else Some s)"

subsection \<open>Runs\<close>

datatype event = Poll usb_poll | SpiDone

definition step :: "event \<Rightarrow> sys \<Rightarrow> sys option" where
  "step e s = (case e of Poll p \<Rightarrow> main_iteration p s | SpiDone \<Rightarrow> spi_done s)"

fun run :: "event list \<Rightarrow> sys \<Rightarrow> sys option" where
  "run [] s = Some s"
| "run (e # es) s = (case step e s of None \<Rightarrow> None | Some t \<Rightarrow> run es t)"

text \<open>The host's chunks, one polling iteration each, with no interrupt in between.\<close>

definition feed :: "u8 list list \<Rightarrow> sys \<Rightarrow> sys option" where
  "feed cs s = run (map (\<lambda>c. Poll (OutData c)) cs) s"

text \<open>
  The state when the polling loop is entered (line 76): \<open>toPC_count\<close> and
  \<open>data_remaining\<close> were set to zero, the statics are zero, interrupts are off. The
  other locals of \<open>main\<close> are uninitialised, so they are arbitrary here; the size of the
  endpoint buffer comes from \<open>usb_config.h\<close> and is a parameter.
\<close>

definition power_on :: "nat \<Rightarrow> sys \<Rightarrow> bool" where
  "power_on ep_len s \<longleftrightarrow>
     toPC_count s = 0 \<and> data_remaining s = 0 \<and> length (in_buf s) = ep_len \<and> to_host s = [] \<and>
     leds s = replicate LED_COUNT \<lparr>g = 0, r = 0, b = 0\<rparr> \<and> isr_ptr s = None \<and>
     bit_position s = 0 \<and> byte_count s = 0 \<and> isr_current_byte s = 0 \<and>
     \<not> GIE s \<and> \<not> SSP1IF s \<and> SSP1BUF s = [] \<and> \<not> spi_busy s"

section \<open>Invariants and the reading of a command\<close>

text \<open>
  The write cursor and the LED index move together: while \<open>wptr\<close> is not \<open>NULL\<close> it
  points at entry \<open>led_index\<close>, which is inside the array.
\<close>

definition cursor_ok :: "sys \<Rightarrow> bool" where
  "cursor_ok s \<longleftrightarrow>
     length (leds s) = LED_COUNT \<and>
     (case wptr s of
        None \<Rightarrow> True
      | Some p \<Rightarrow> p = 3 * unat (led_index s) \<and> unat (led_index s) < LED_COUNT)"

text \<open>
  The acknowledgments waiting in the endpoint buffer, and all acknowledgments produced
  so far: those already handed to the transport followed by the staged ones.
\<close>

definition staged :: "sys \<Rightarrow> u8 list" where
  "staged s = take (unat (toPC_count s)) (in_buf s)"

definition ack_stream :: "sys \<Rightarrow> u8 list" where
  "ack_stream s = concat (to_host s) @ staged s"

text \<open>
  \<open>written p n ls0 ls\<close>: \<open>ls\<close> is \<open>ls0\<close> after the first \<open>n\<close> bytes of the payload \<open>p\<close>
  have been stored, byte \<open>3i\<close> in channel \<open>r\<close>, byte \<open>3i+1\<close> in channel \<open>g\<close> and byte
  \<open>3i+2\<close> in channel \<open>b\<close> of entry \<open>i\<close>, for the entries that exist.
\<close>

definition written :: "u8 list \<Rightarrow> nat \<Rightarrow> ws_led_struct list \<Rightarrow> ws_led_struct list \<Rightarrow> bool" where
  "written p n ls0 ls \<longleftrightarrow>
     length ls = LED_COUNT \<and>
     (\<forall>i<LED_COUNT.
        r (ls ! i) = (if 3 * i < n then p ! (3 * i) else r (ls0 ! i)) \<and>
        g (ls ! i) = (if 3 * i + 1 < n then p ! (3 * i + 1) else g (ls0 ! i)) \<and>
        b (ls ! i) = (if 3 * i + 2 < n then p ! (3 * i + 2) else b (ls0 ! i)))"

text \<open>The decoder's cursor variables after \<open>n\<close> payload bytes of a set-pixels command.\<close>

definition cursor_at :: "u8 list \<Rightarrow> ws_led_struct list \<Rightarrow> nat \<Rightarrow> sys \<Rightarrow> bool" where
  "cursor_at p ls0 n s \<longleftrightarrow>
     color_index s = of_nat (n mod 3) \<and> led_index s = of_nat (n div 3) \<and>
     wptr s = (if n < 3 * LED_COUNT then Some (3 * (n div 3)) else None) \<and>
     written p n ls0 (leds s)"

text \<open>
  What \<open>pixel_byte\<close> may change: the cursor variables and the buffer, and the hand-off
  when the payload is exhausted.
\<close>

definition pixel_frame :: "sys \<Rightarrow> sys \<Rightarrow> bool" where
  "pixel_frame s t \<longleftrightarrow>
     t = (if data_remaining s = 0 then handoff s else s)
           \<lparr>color_index := color_index t, led_index := led_index t, wptr := wptr t, leds := leds t\<rparr>"

text \<open>The hand-off has, or has not, been performed between two states.\<close>

definition handed_off :: "sys \<Rightarrow> sys \<Rightarrow> bool" where
  "handed_off s t \<longleftrightarrow> isr_ptr t = Some 0 \<and> GIE t \<and> SSP1BUF t = SSP1BUF s @ [0] \<and> spi_busy t"

definition no_handoff :: "sys \<Rightarrow> sys \<Rightarrow> bool" where
  "no_handoff s t \<longleftrightarrow>
     isr_ptr t = isr_ptr s \<and> GIE t = GIE s \<and> SSP1BUF t = SSP1BUF s \<and> spi_busy t = spi_busy s"

text \<open>
  \<open>progress opc L p s0 n s\<close>: from the state \<open>s0\<close> between commands, the header of a
  command with opcode \<open>opc\<close> and declared length \<open>L\<close> and the first \<open>n\<close> bytes of its
  payload \<open>p\<close> have been consumed, giving \<open>s\<close>.
\<close>

definition progress :: "u8 \<Rightarrow> nat \<Rightarrow> u8 list \<Rightarrow> sys \<Rightarrow> nat \<Rightarrow> sys \<Rightarrow> bool" where
  "progress opc L p s0 n s \<longleftrightarrow>
     n \<le> L \<and> command s = opc \<and> unat (data_remaining s) = L - n \<and> 0 < length (in_buf s) \<and>
     (if 0 < n \<and> n = L
      then ack_stream s = ack_stream s0 @ [0xFF] \<and> unat (toPC_count s) \<le> 1
      else ack_stream s = ack_stream s0 \<and> toPC_count s = 0) \<and>
     (if opc = 2
      then cursor_at p (leds s0) n s \<and> (if 0 < n \<and> n = L then handed_off s0 s else no_handoff s0 s)
      else leds s = leds s0 \<and> no_handoff s0 s)"

text \<open>
  A concrete power-on state for the examples: the uninitialised locals are zero and the
  endpoint buffer has 64 bytes.
\<close>

definition boot :: sys where
  "boot = \<lparr>command = 0, color_index = 0, current_byte = 0, previous_byte = 0, led_index = 0,
     data_remaining = 0, wptr = None, toPC_count = 0, in_buf = replicate 64 0, to_host = [],
     leds = replicate LED_COUNT \<lparr>g = 0, r = 0, b = 0\<rparr>, isr_ptr = None,
     bit_position = 0, byte_count = 0, isr_current_byte = 0,
     GIE = False, SSP1IF = False, SSP1BUF = [], spi_busy = False\<rparr>"

text \<open>
  The invariant inside a chunk, before the byte at position \<open>index\<close>. The last conjunct
  bounds the acknowledgments of the chunk: one for a payload still open, one for a length
  still to be latched at position 2.
\<close>

definition chunk_inv :: "nat \<Rightarrow> sys \<Rightarrow> bool" where
  "chunk_inv index s \<longleftrightarrow>
     length (leds s) = LED_COUNT \<and> 2 \<le> length (in_buf s) \<and>
     (cursor_ok s \<or> data_remaining s = 0 \<and> index = 0) \<and>
     unat (toPC_count s) + (if data_remaining s = 0 then 0 else 1) + (if index \<le> 2 then 1 else 0) \<le> 2"

text \<open>
  The invariant of the emitter: while a transfer is under way interrupts are on and the
  read pointer has not run ahead of the byte count.
\<close>

definition emitter_inv :: "sys \<Rightarrow> bool" where
  "emitter_inv s \<longleftrightarrow>
     \<not> SSP1IF s \<and> unat (byte_count s) \<le> LED_COUNT * 3 \<and>
     (spi_busy s \<longrightarrow> GIE s \<and> (\<exists>p. isr_ptr s = Some p \<and> p \<le> unat (byte_count s)))"

text \<open>The invariant between two events.\<close>

definition sys_inv :: "sys \<Rightarrow> bool" where
  "sys_inv s \<longleftrightarrow>
     length (leds s) = LED_COUNT \<and> 2 \<le> length (in_buf s) \<and> unat (toPC_count s) \<le> 2 \<and>
     (data_remaining s = 0 \<or> cursor_ok s) \<and> emitter_inv s"









text \<open>
  \<open>current_byte\<close> and \<open>previous_byte\<close> only carry a byte from one iteration to the
  next; \<open>without_scratch\<close> forgets them.
\<close>

definition without_scratch :: "sys \<Rightarrow> sys" where
  "without_scratch s = s\<lparr>previous_byte := 0, current_byte := 0\<rparr>"

section \<open>Lemmas\<close>

subsection \<open>The two branches of the loop body\<close>

lemma header_branch:
  "data_remaining s = 0 \<Longrightarrow>
   decode_byte index x s = Some (header_byte index (s\<lparr>previous_byte := current_byte s, current_byte := x\<rparr>))"
  by (simp add: decode_byte_def)

lemma payload_branch:
  "data_remaining s \<noteq> 0 \<Longrightarrow>
   decode_byte index x s = payload_byte (s\<lparr>previous_byte := current_byte s, current_byte := x\<rparr>)"
  by (simp add: decode_byte_def)

lemma late_byte:
  "data_remaining s = 0 \<Longrightarrow> 3 \<le> index \<Longrightarrow>
   decode_byte index x s = Some (s\<lparr>previous_byte := current_byte s, current_byte := x\<rparr>)"
  by (simp add: header_branch header_byte_def)

lemma late_bytes:
  "data_remaining s = 0 \<Longrightarrow> 3 \<le> index \<Longrightarrow>
   \<exists>t. chunk_loop index xs s = Some t \<and> command t = command s \<and> data_remaining t = data_remaining s \<and>
     wptr t = wptr s \<and> color_index t = color_index s \<and> led_index t = led_index s \<and>
     leds t = leds s \<and> toPC_count t = toPC_count s \<and> in_buf t = in_buf s \<and> to_host t = to_host s \<and>
     isr_ptr t = isr_ptr s \<and> GIE t = GIE s \<and> SSP1BUF t = SSP1BUF s"
proof (induction xs arbitrary: index s)
  case Nil
  show ?case by simp
next
  case (Cons x xs)
  let ?s1 = "s\<lparr>previous_byte := current_byte s, current_byte := x\<rparr>"
  have "data_remaining ?s1 = 0" using Cons.prems by simp
  from Cons.IH [OF this, of "Suc index"] Cons.prems
  show ?case by (simp add: late_byte)
qed

subsection \<open>Storing the payload of a set-pixels command\<close>

lemma written_0: "length ls = LED_COUNT \<Longrightarrow> written p 0 ls ls"
  by (simp add: written_def)

lemma written_I:
  assumes "length ls = LED_COUNT"
    and "\<And>i. i < LED_COUNT \<Longrightarrow>
        r (ls ! i) = (if 3 * i < n then p ! (3 * i) else r (ls0 ! i)) \<and>
        g (ls ! i) = (if 3 * i + 1 < n then p ! (3 * i + 1) else g (ls0 ! i)) \<and>
        b (ls ! i) = (if 3 * i + 2 < n then p ! (3 * i + 2) else b (ls0 ! i))"
  shows "written p n ls0 ls"
  using assms by (simp add: written_def)

lemma written_r:
  assumes "written p (3 * k) ls0 ls" and "k < LED_COUNT"
  shows "written p (3 * k + 1) ls0 (ls[k := (ls ! k)\<lparr>r := p ! (3 * k)\<rparr>])"
proof (rule written_I)
  fix i assume "i < LED_COUNT"
  with assms show
    "r (ls[k := (ls ! k)\<lparr>r := p ! (3 * k)\<rparr>] ! i) =
       (if 3 * i < 3 * k + 1 then p ! (3 * i) else r (ls0 ! i)) \<and>
     g (ls[k := (ls ! k)\<lparr>r := p ! (3 * k)\<rparr>] ! i) =
       (if 3 * i + 1 < 3 * k + 1 then p ! (3 * i + 1) else g (ls0 ! i)) \<and>
     b (ls[k := (ls ! k)\<lparr>r := p ! (3 * k)\<rparr>] ! i) =
       (if 3 * i + 2 < 3 * k + 1 then p ! (3 * i + 2) else b (ls0 ! i))"
    by (cases "i = k") (auto simp: written_def nth_list_update)
qed (use assms in \<open>simp add: written_def\<close>)

lemma written_g:
  assumes "written p (3 * k + 1) ls0 ls" and "k < LED_COUNT"
  shows "written p (3 * k + 2) ls0 (ls[k := (ls ! k)\<lparr>g := p ! (3 * k + 1)\<rparr>])"
proof (rule written_I)
  fix i assume "i < LED_COUNT"
  with assms show
    "r (ls[k := (ls ! k)\<lparr>g := p ! (3 * k + 1)\<rparr>] ! i) =
       (if 3 * i < 3 * k + 2 then p ! (3 * i) else r (ls0 ! i)) \<and>
     g (ls[k := (ls ! k)\<lparr>g := p ! (3 * k + 1)\<rparr>] ! i) =
       (if 3 * i + 1 < 3 * k + 2 then p ! (3 * i + 1) else g (ls0 ! i)) \<and>
     b (ls[k := (ls ! k)\<lparr>g := p ! (3 * k + 1)\<rparr>] ! i) =
       (if 3 * i + 2 < 3 * k + 2 then p ! (3 * i + 2) else b (ls0 ! i))"
    by (cases "i = k") (auto simp: written_def nth_list_update)
qed (use assms in \<open>simp add: written_def\<close>)

lemma written_b:
  assumes "written p (3 * k + 2) ls0 ls" and "k < LED_COUNT"
  shows "written p (Suc (3 * k + 2)) ls0 (ls[k := (ls ! k)\<lparr>b := p ! (3 * k + 2)\<rparr>])"
proof (rule written_I)
  fix i assume "i < LED_COUNT"
  with assms show
    "r (ls[k := (ls ! k)\<lparr>b := p ! (3 * k + 2)\<rparr>] ! i) =
       (if 3 * i < Suc (3 * k + 2) then p ! (3 * i) else r (ls0 ! i)) \<and>
     g (ls[k := (ls ! k)\<lparr>b := p ! (3 * k + 2)\<rparr>] ! i) =
       (if 3 * i + 1 < Suc (3 * k + 2) then p ! (3 * i + 1) else g (ls0 ! i)) \<and>
     b (ls[k := (ls ! k)\<lparr>b := p ! (3 * k + 2)\<rparr>] ! i) =
       (if 3 * i + 2 < Suc (3 * k + 2) then p ! (3 * i + 2) else b (ls0 ! i))"
    by (cases "i = k") (auto simp: written_def nth_list_update)
qed (use assms in \<open>simp add: written_def\<close>)

lemma written_past:
  "written p n ls0 ls \<Longrightarrow> 3 * LED_COUNT \<le> n \<Longrightarrow> written p (Suc n) ls0 ls"
  by (auto simp: written_def)

lemma led_store_r: "led_store (3 * k + 1) v ls = ls[k := (ls ! k)\<lparr>r := v\<rparr>]"
proof -
  have "(3 * k + 1) div 3 = k" "(3 * k + 1) mod 3 = 1" by arith+
  then show ?thesis by (simp add: led_store_def)
qed

lemma led_store_g: "led_store (3 * k) v ls = ls[k := (ls ! k)\<lparr>g := v\<rparr>]"
  by (simp add: led_store_def)

lemma led_store_b: "led_store (3 * k + 2) v ls = ls[k := (ls ! k)\<lparr>b := v\<rparr>]"
proof -
  have "(3 * k + 2) div 3 = k" "(3 * k + 2) mod 3 = 2" by arith+
  then show ?thesis by (simp add: led_store_def)
qed

lemma u8_of_nat_eq:
  "m < 256 \<Longrightarrow> n < 256 \<Longrightarrow> ((of_nat m :: u8) = of_nat n) = (m = n)"
  by (simp add: word_of_nat_eq_iff take_bit_eq_mod)

lemma pixel_red:
  assumes "cursor_at p ls0 (3 * k) s" and "k < LED_COUNT" and "current_byte s = p ! (3 * k)"
  shows "\<exists>t. pixel_byte s = Some t \<and> cursor_at p ls0 (3 * k + 1) t \<and> pixel_frame s t"
proof -
  have c: "color_index s = 0" "wptr s = Some (3 * k)" "led_index s = of_nat k"
    and w: "written p (3 * k) ls0 (leds s)"
    using assms(1,2) by (simp_all add: cursor_at_def)
  have len: "length (leds s) = LED_COUNT" using w by (simp add: written_def)
  have d: "(3 * k + 1) div 3 = k" "(3 * k + 1) mod 3 = 1" by arith+
  have sc: "store_color s = Some (s\<lparr>leds := (leds s)[k := (leds s ! k)\<lparr>r := p ! (3 * k)\<rparr>]\<rparr>)"
    using c len assms(2,3) by (simp add: store_color_def poke_def led_store_r [simplified] LED_COUNT_def)
  show ?thesis
    using c assms(2) written_r [OF w assms(2)] d
    by (simp add: pixel_byte_def sc next_color_def cursor_at_def pixel_frame_def handoff_def Let_def)
qed

lemma pixel_green:
  assumes "cursor_at p ls0 (3 * k + 1) s" and "k < LED_COUNT" and "current_byte s = p ! (3 * k + 1)"
  shows "\<exists>t. pixel_byte s = Some t \<and> cursor_at p ls0 (3 * k + 2) t \<and> pixel_frame s t"
proof -
  have d: "(3 * k + 1) div 3 = k" "(3 * k + 1) mod 3 = 1" "(3 * k + 2) div 3 = k" "(3 * k + 2) mod 3 = 2"
    by arith+
  have c: "color_index s = 1" "wptr s = Some (3 * k)" "led_index s = of_nat k"
    and w: "written p (3 * k + 1) ls0 (leds s)"
    using assms(1,2) d by (simp_all add: cursor_at_def)
  have len: "length (leds s) = LED_COUNT" using w by (simp add: written_def)
  have sc: "store_color s = Some (s\<lparr>leds := (leds s)[k := (leds s ! k)\<lparr>g := p ! (3 * k + 1)\<rparr>]\<rparr>)"
    using c len assms(2,3) by (simp add: store_color_def poke_def led_store_g LED_COUNT_def)
  show ?thesis
    using c assms(2) written_g [OF w assms(2)] d
    by (simp add: pixel_byte_def sc next_color_def cursor_at_def pixel_frame_def handoff_def Let_def)
qed

lemma pixel_blue:
  assumes "cursor_at p ls0 (3 * k + 2) s" and "k < LED_COUNT" and "current_byte s = p ! (3 * k + 2)"
  shows "\<exists>t. pixel_byte s = Some t \<and> cursor_at p ls0 (Suc (3 * k + 2)) t \<and> pixel_frame s t"
proof -
  have d: "(3 * k + 2) div 3 = k" "(3 * k + 2) mod 3 = 2" "Suc (3 * k + 2) div 3 = k + 1" "Suc (3 * k + 2) mod 3 = 0"
    by arith+
  have c: "color_index s = 2" "wptr s = Some (3 * k)" "led_index s = of_nat k"
    and w: "written p (3 * k + 2) ls0 (leds s)"
    using assms(1,2) d by (simp_all add: cursor_at_def)
  have len: "length (leds s) = LED_COUNT" using w by (simp add: written_def)
  have sc: "store_color s = Some (s\<lparr>leds := (leds s)[k := (leds s ! k)\<lparr>b := p ! (3 * k + 2)\<rparr>],
              wptr := Some (3 * k + 3)\<rparr>)"
    using c len assms(2,3) by (simp add: store_color_def poke_def led_store_b [simplified] LED_COUNT_def)
  have e: "(of_nat k + 1 = (of_nat LED_COUNT :: u8)) = (k + 1 = LED_COUNT)"
    using assms(2) u8_of_nat_eq [of "k + 1" LED_COUNT] by (simp add: LED_COUNT_def)
  show ?thesis
    using c assms(2) written_b [OF w assms(2)] d e
    by (auto simp add: pixel_byte_def sc next_color_def cursor_at_def pixel_frame_def handoff_def Let_def LED_COUNT_def)
qed

lemma pixel_past:
  assumes "cursor_at p ls0 n s" and "3 * LED_COUNT \<le> n"
  shows "\<exists>t. pixel_byte s = Some t \<and> cursor_at p ls0 (Suc n) t \<and> pixel_frame s t"
proof -
  have c: "color_index s = of_nat (n mod 3)" "wptr s = None" "led_index s = of_nat (n div 3)"
    and w: "written p n ls0 (leds s)"
    using assms by (simp_all add: cursor_at_def)
  have sc: "store_color s = Some s" using c by (simp add: store_color_def)
  consider "n mod 3 = 0" | "n mod 3 = 1" | "n mod 3 = 2" by arith
  then show ?thesis
  proof cases
    case 1
    then have "Suc n mod 3 = 1" "Suc n div 3 = n div 3" by arith+
    with 1 c assms(2) written_past [OF w assms(2)] show ?thesis
      by (simp add: pixel_byte_def sc next_color_def cursor_at_def pixel_frame_def handoff_def Let_def)
  next
    case 2
    then have "Suc n mod 3 = 2" "Suc n div 3 = n div 3" by arith+
    with 2 c assms(2) written_past [OF w assms(2)] show ?thesis
      by (simp add: pixel_byte_def sc next_color_def cursor_at_def pixel_frame_def handoff_def Let_def)
  next
    case 3
    then have "Suc n mod 3 = 0" "Suc n div 3 = Suc (n div 3)" by arith+
    with 3 c assms(2) written_past [OF w assms(2)] show ?thesis
      by (auto simp add: pixel_byte_def sc next_color_def cursor_at_def pixel_frame_def handoff_def Let_def
          add.commute)
  qed
qed

lemma pixel_step:
  assumes "cursor_at p ls0 n s" and "current_byte s = p ! n"
  shows "\<exists>t. pixel_byte s = Some t \<and> cursor_at p ls0 (Suc n) t \<and> pixel_frame s t"
proof (cases "n < 3 * LED_COUNT")
  case False
  then show ?thesis using pixel_past [OF assms(1)] by simp
next
  case True
  define k where "k = n div 3"
  have k: "k < LED_COUNT" using True by (simp add: k_def LED_COUNT_def)
  consider "n = 3 * k" | "n = 3 * k + 1" | "n = 3 * k + 2" unfolding k_def by arith
  then show ?thesis
  proof cases
    case 1
    with assms k pixel_red [of p ls0 k s] show ?thesis by simp
  next
    case 2
    with assms k pixel_green [of p ls0 k s] show ?thesis by simp
  next
    case 3
    with 3 assms k pixel_blue [of p ls0 k s] show ?thesis by simp
  qed
qed

subsection \<open>One payload byte of a command\<close>

lemma pixel_frame_fields:
  assumes "pixel_frame s t"
  shows "command t = command s" "data_remaining t = data_remaining s" "in_buf t = in_buf s"
    "toPC_count t = toPC_count s" "to_host t = to_host s"
    "data_remaining s = 0 \<Longrightarrow> handed_off s t" "data_remaining s \<noteq> 0 \<Longrightarrow> no_handoff s t"
proof -
  let ?u = "(if data_remaining s = 0 then handoff s else s)
           \<lparr>color_index := color_index t, led_index := led_index t, wptr := wptr t, leds := leds t\<rparr>"
  have eq: "t = ?u" using assms by (simp add: pixel_frame_def)
  show "command t = command s" using arg_cong [OF eq, of command] by (simp add: handoff_def)
  show "data_remaining t = data_remaining s"
    using arg_cong [OF eq, of data_remaining] by (simp add: handoff_def)
  show "in_buf t = in_buf s" using arg_cong [OF eq, of in_buf] by (simp add: handoff_def)
  show "toPC_count t = toPC_count s" using arg_cong [OF eq, of toPC_count] by (simp add: handoff_def)
  show "to_host t = to_host s" using arg_cong [OF eq, of to_host] by (simp add: handoff_def)
  show "handed_off s t" if "data_remaining s = 0"
    using that arg_cong [OF eq, of isr_ptr] arg_cong [OF eq, of GIE] arg_cong [OF eq, of SSP1BUF]
      arg_cong [OF eq, of spi_busy]
    by (simp add: handoff_def handed_off_def)
  show "no_handoff s t" if "data_remaining s \<noteq> 0"
    using that arg_cong [OF eq, of isr_ptr] arg_cong [OF eq, of GIE] arg_cong [OF eq, of SSP1BUF]
      arg_cong [OF eq, of spi_busy]
    by (simp add: no_handoff_def)
qed

lemma ack_first:
  assumes "toPC_count t = 0" and "0 < length (in_buf t)"
  shows "ack t = Some (t\<lparr>in_buf := (in_buf t)[0 := 0xFF], toPC_count := 1\<rparr>)"
    and "ack_stream (t\<lparr>in_buf := (in_buf t)[0 := 0xFF], toPC_count := 1\<rparr>) = ack_stream t @ [0xFF]"
  using assms by (cases "in_buf t"; simp add: ack_def ack_stream_def staged_def)+

lemma u16_pred:
  assumes "unat (w :: u16) = L - n" and "n < L"
  shows "unat (w - 1) = L - Suc n" and "(w - 1 = 0) = (Suc n = L)" and "w \<noteq> 0"
proof -
  show nz: "w \<noteq> 0" using assms by (auto simp: unat_eq_0 [symmetric] simp del: unat_eq_0)
  then show u: "unat (w - 1) = L - Suc n" using assms by (simp add: unat_minus_one)
  show "(w - 1 = 0) = (Suc n = L)"
    using u assms(2) by (auto simp: unat_eq_0 [symmetric] simp del: unat_eq_0)
qed

lemma progress_step:
  assumes pr: "progress opc L p s0 n s" and n: "n < L" and x: "x = p ! n"
  shows "\<exists>t. decode_byte index x s = Some t \<and> progress opc L p s0 (Suc n) t"
proof -
  let ?s1 = "s\<lparr>previous_byte := current_byte s, current_byte := x\<rparr>"
  let ?s2 = "?s1\<lparr>data_remaining := data_remaining s - 1\<rparr>"
  have dr: "unat (data_remaining s) = L - n" using pr by (simp add: progress_def)
  note w = u16_pred [OF dr n]
  have base: "command s = opc" "0 < length (in_buf s)" "ack_stream s = ack_stream s0"
    "toPC_count s = 0"
    using pr n by (simp_all add: progress_def)
  have dec: "decode_byte index x s = payload_byte ?s1"
    using w(3) by (rule payload_branch)
  show ?thesis
  proof (cases "opc = 2")
    case False
    have rest: "leds s = leds s0" "no_handoff s0 s" using pr False by (simp_all add: progress_def)
    have pb: "payload_byte ?s1 = (if Suc n = L then ack ?s2 else Some ?s2)"
      using False base(1) w(2) by (simp add: payload_byte_def Let_def)
    show ?thesis
    proof (cases "Suc n = L")
      case True
      have a: "toPC_count ?s2 = 0" "0 < length (in_buf ?s2)" using base by simp_all
      show ?thesis
        using True False n base rest w(1) ack_first [OF a]
        by (simp add: dec pb progress_def no_handoff_def ack_stream_def staged_def)
    next
      case F: False
      show ?thesis
        using F False n base rest w(1)
        by (simp add: dec pb progress_def no_handoff_def ack_stream_def staged_def)
    qed
  next
    case True
    have cur: "cursor_at p (leds s0) n s" and nh: "no_handoff s0 s"
      using pr True n by (simp_all add: progress_def)
    have cur2: "cursor_at p (leds s0) n ?s2"
      using cur by (simp add: cursor_at_def)
    have "current_byte ?s2 = p ! n" using x by simp
    from pixel_step [OF cur2 this] obtain t where
      t: "pixel_byte ?s2 = Some t" "cursor_at p (leds s0) (Suc n) t" "pixel_frame ?s2 t"
      by blast
    note f = pixel_frame_fields [OF t(3)]
    have pb: "payload_byte ?s1 = (if Suc n = L then ack t else Some t)"
      using True base(1) w(2) t(1) f(2) by (simp add: payload_byte_def Let_def)
    show ?thesis
    proof (cases "Suc n = L")
      case T: True
      have a: "toPC_count t = 0" "0 < length (in_buf t)" using base f by simp_all
      have d0: "data_remaining ?s2 = 0" using w(2) T by simp
      have h: "handed_off s0 t"
        using f(6) [OF d0] nh by (simp add: handed_off_def no_handoff_def)
      have st: "ack_stream t = ack_stream s" using f by (simp add: ack_stream_def staged_def)
      let ?t' = "t\<lparr>in_buf := (in_buf t)[0 := 0xFF], toPC_count := 1\<rparr>"
      have c': "cursor_at p (leds s0) (Suc n) ?t'"
        using t(2) by (simp add: cursor_at_def)
      have h': "handed_off s0 ?t'" using h by (simp add: handed_off_def)
      show ?thesis
        using T True n base f w(1) ack_first [OF a] st c' h'
        by (simp add: dec pb progress_def)
    next
      case F: False
      have d0: "data_remaining ?s2 \<noteq> 0" using w(2) F by simp
      have h: "no_handoff s0 t"
        using f(7) [OF d0] nh by (simp add: no_handoff_def)
      have st: "ack_stream t = ack_stream s" using f by (simp add: ack_stream_def staged_def)
      show ?thesis
        using F True n base f w(1) st t(2) h
        by (simp add: dec pb progress_def)
    qed
  qed
qed

subsection \<open>Header, chunks and whole commands\<close>

lemma unat_ucast_8_16: "unat (ucast (w :: u8) :: u16) = unat w"
  using unsigned_less [of w, where 'a = nat]
  by (simp add: unsigned_ucast_eq take_bit_eq_mod)

lemma unat_length_word:
  "unat (push_bit 8 (ucast (hi :: u8)) OR ucast (lo :: u8) :: u16) = unat lo + 256 * unat hi"
proof -
  have "(push_bit 8 (ucast hi) OR ucast lo :: u16) = push_bit 8 (ucast hi) + ucast lo"
    by (rule disjunctive_add [symmetric]) (auto simp: bit_push_bit_iff bit_ucast_iff dest: bit_imp_le_length)
  moreover have "unat (push_bit 8 (ucast hi :: u16)) = 256 * unat hi"
    using unsigned_less [of hi, where 'a = nat]
    by (simp add: push_bit_eq_mult unat_word_ariths unat_ucast_8_16)
  ultimately show ?thesis
    using unsigned_less [of hi, where 'a = nat] unsigned_less [of lo, where 'a = nat]
    by (simp add: unat_word_ariths unat_ucast_8_16)
qed

lemma ack_stream_flush: "ack_stream (flush_in s) = ack_stream s"
  by (simp add: flush_in_def ack_stream_def staged_def)

lemma toPC_count_flush: "toPC_count (flush_in s) = 0"
  by (simp add: flush_in_def word_gt_0)

lemma chunk_loop_append:
  "chunk_loop index (xs @ ys) s =
     (case chunk_loop index xs s of None \<Rightarrow> None | Some t \<Rightarrow> chunk_loop (index + length xs) ys t)"
  by (induction xs arbitrary: index s) (auto split: option.splits)

lemma header_chunk:
  assumes "data_remaining s = 0" and "0 < length (in_buf s)" and "length (leds s) = LED_COUNT"
  shows "\<exists>t. chunk_loop 0 [opc, lo, hi] (flush_in s) = Some t \<and>
           progress opc (unat lo + 256 * unat hi) p s 0 t \<and>
           wptr t = Some 0 \<and> color_index t = 0 \<and> led_index t = 0 \<and> leds t = leds s"
  using assms
  by (simp add: decode_byte_def header_byte_def flush_in_def progress_def unat_length_word
      ack_stream_def staged_def cursor_at_def written_0 no_handoff_def LED_COUNT_def Let_def word_gt_0)

lemma progress_flush:
  "progress opc L p s0 n s \<Longrightarrow> progress opc L p s0 n (flush_in s)"
  by (auto simp: progress_def flush_in_def ack_stream_def staged_def cursor_at_def
      handed_off_def no_handoff_def)

lemma progress_chunk:
  assumes "progress opc L p s0 (length pre) s" and "p = pre @ xs @ post"
    and "length pre + length xs \<le> L"
  shows "\<exists>t. chunk_loop index xs s = Some t \<and> progress opc L p s0 (length pre + length xs) t"
  using assms
proof (induction xs arbitrary: pre s index)
  case Nil
  then show ?case by simp
next
  case (Cons x xs)
  have "x = p ! length pre" using Cons.prems(2) by simp
  with progress_step [OF Cons.prems(1), of x index] Cons.prems(3)
  obtain t where t: "decode_byte index x s = Some t" "progress opc L p s0 (Suc (length pre)) t"
    by auto
  have "progress opc L p s0 (length (pre @ [x])) t" using t(2) by simp
  from Cons.IH [OF this, of "Suc index"] Cons.prems(2,3) t(1)
  show ?case by simp
qed

lemma feed_Nil: "feed [] s = Some s"
  by (simp add: feed_def)

lemma feed_Cons:
  "feed (c # cs) s = (case chunk_loop 0 c (flush_in s) of None \<Rightarrow> None | Some t \<Rightarrow> feed cs t)"
  unfolding feed_def by (simp add: step_def main_iteration_def)

lemma progress_feed:
  assumes "progress opc L p s0 (length pre) s" and "p = pre @ concat cs @ post"
    and "length pre + length (concat cs) \<le> L"
  shows "\<exists>t. feed cs s = Some t \<and> progress opc L p s0 (length pre + length (concat cs)) t"
  using assms
proof (induction cs arbitrary: pre s)
  case Nil
  then show ?case by (simp add: feed_Nil)
next
  case (Cons c cs)
  have "progress opc L p s0 (length pre) (flush_in s)"
    using Cons.prems(1) by (rule progress_flush)
  from progress_chunk [OF this, of c "concat cs @ post" 0] Cons.prems(2,3)
  obtain t where t: "chunk_loop 0 c (flush_in s) = Some t"
    "progress opc L p s0 (length (pre @ c)) t" by auto
  from Cons.IH [OF t(2)] Cons.prems(2,3) t(1)
  show ?case by (simp add: feed_Cons add.assoc)
qed

text \<open>A whole command: the header opens the first chunk, the payload follows in any chunking.\<close>

lemma command_feed:
  assumes "data_remaining s = 0" and "0 < length (in_buf s)" and "length (leds s) = LED_COUNT"
    and "concat cs = q" and "n = length p0 + length q"
    and "n \<le> unat lo + 256 * unat hi"
  shows "\<exists>t. feed (([opc, lo, hi] @ p0) # cs) s = Some t \<and>
           progress opc (unat lo + 256 * unat hi) (p0 @ q @ post) s n t"
proof -
  let ?L = "unat lo + 256 * unat hi" and ?p = "p0 @ q @ post"
  from header_chunk [OF assms(1-3), of opc lo hi ?p]
  obtain t0 where t0: "chunk_loop 0 [opc, lo, hi] (flush_in s) = Some t0" "progress opc ?L ?p s 0 t0"
    by blast
  have "progress opc ?L ?p s (length ([] :: u8 list)) t0" using t0(2) by simp
  from progress_chunk [OF this, of p0 "q @ post" 3] assms(5,6)
  obtain t1 where t1: "chunk_loop 3 p0 t0 = Some t1" "progress opc ?L ?p s (length p0) t1"
    by auto
  have c: "chunk_loop 0 ([opc, lo, hi] @ p0) (flush_in s) = Some t1"
    by (simp only: chunk_loop_append t0(1) option.case) (use t1(1) in \<open>simp add: numeral_3_eq_3\<close>)
  from progress_feed [OF t1(2), of cs post] assms(4-6)
  obtain t where "feed cs t1 = Some t" "progress opc ?L ?p s (length p0 + length (concat cs)) t"
    by auto
  then show ?thesis using c assms(4,5) by (simp add: feed_Cons del: append.simps)
qed

subsection \<open>The cursor stays inside the buffer\<close>

lemma u8_succ_128:
  assumes "unat (w :: u8) < 128"
  shows "unat (w + 1) = Suc (unat w)" and "(w + 1 = 128) = (unat w = 127)"
proof -
  show u: "unat (w + 1) = Suc (unat w)" using assms by (simp add: unat_word_ariths)
  have "(w + 1 = 128) = (unat (w + 1) = unat (128 :: u8))" by (simp only: word_unat_eq_iff)
  then show "(w + 1 = 128) = (unat w = 127)" using u by simp
qed

lemma length_led_store: "length (led_store q v ls) = length ls"
  by (simp add: led_store_def)

lemma u8_succ_3: "((w :: u8) + 1 = 3) = (w = 2)"
  by (simp add: eq_diff_eq [symmetric])

lemma pixel_inv:
  assumes "cursor_ok s"
  shows "\<exists>t. pixel_byte s = Some t \<and> cursor_ok t \<and> pixel_frame s t"
proof (cases "wptr s")
  case None
  then have sc: "store_color s = Some s" by (simp add: store_color_def)
  show ?thesis using assms None
    by (simp add: pixel_byte_def sc next_color_def cursor_ok_def pixel_frame_def handoff_def Let_def)
next
  case (Some q)
  then have q: "q = 3 * unat (led_index s)" "unat (led_index s) < 128" "length (leds s) = 128"
    using assms by (simp_all add: cursor_ok_def LED_COUNT_def)
  note u = u8_succ_128 [OF q(2)]
  consider "color_index s = 0" | "color_index s = 1" | "color_index s = 2"
    | "color_index s \<noteq> 0" "color_index s \<noteq> 1" "color_index s \<noteq> 2" by blast
  then show ?thesis
  proof cases
    case 1
    then show ?thesis using Some q
      by (simp add: pixel_byte_def store_color_def poke_def next_color_def cursor_ok_def
          pixel_frame_def handoff_def Let_def LED_COUNT_def length_led_store)
  next
    case 2
    then show ?thesis using Some q
      by (simp add: pixel_byte_def store_color_def poke_def next_color_def cursor_ok_def
          pixel_frame_def handoff_def Let_def LED_COUNT_def length_led_store)
  next
    case 3
    then show ?thesis using Some q u
      by (simp add: pixel_byte_def store_color_def poke_def next_color_def cursor_ok_def
          pixel_frame_def handoff_def Let_def LED_COUNT_def length_led_store)
  next
    case 4
    have "color_index s + 1 \<noteq> 3" using 4(3) by (simp add: u8_succ_3)
    then show ?thesis using Some q 4
      by (simp add: pixel_byte_def store_color_def poke_def next_color_def cursor_ok_def
          pixel_frame_def handoff_def Let_def LED_COUNT_def length_led_store)
  qed
qed

subsection \<open>The example state, and reading off a finished command\<close>

lemma power_on_boot: "power_on 64 boot"
  by (simp add: power_on_def boot_def)

lemma boot_fields:
  "command boot = 0" "color_index boot = 0" "current_byte boot = 0" "previous_byte boot = 0"
  "led_index boot = 0" "data_remaining boot = 0" "wptr boot = None" "toPC_count boot = 0"
  "in_buf boot = replicate 64 0" "to_host boot = []"
  "leds boot = replicate LED_COUNT \<lparr>g = 0, r = 0, b = 0\<rparr>" "isr_ptr boot = None"
  "bit_position boot = 0" "byte_count boot = 0" "isr_current_byte boot = 0"
  "GIE boot = False" "SSP1IF boot = False" "SSP1BUF boot = []" "spi_busy boot = False"
  by (simp_all add: boot_def)

lemma ack_staged:
  assumes "unat (toPC_count s) < length (in_buf s)" and "unat (toPC_count s) < 255"
  shows "\<exists>t. ack s = Some t \<and> staged t = staged s @ [0xFF] \<and> to_host t = to_host s \<and>
           data_remaining t = data_remaining s"
proof -
  have "unat (toPC_count s + 1) = Suc (unat (toPC_count s))"
    using assms by (simp add: unat_word_ariths)
  then show ?thesis
    using assms(1) by (simp add: ack_def staged_def take_Suc_conv_app_nth)
qed

lemma written_full:
  assumes "written p n ls0 ls" and "i < LED_COUNT" and "3 * i + 2 < n"
  shows "ls ! i = \<lparr>g = p ! (3 * i + 1), r = p ! (3 * i), b = p ! (3 * i + 2)\<rparr>"
  using assms by (cases "ls ! i") (auto simp: written_def)

lemma written_old:
  assumes "written p n ls0 ls" and "i < LED_COUNT" and "n \<le> 3 * i"
  shows "ls ! i = ls0 ! i"
proof -
  have "r (ls ! i) = r (ls0 ! i)" "g (ls ! i) = g (ls0 ! i)" "b (ls ! i) = b (ls0 ! i)"
    using assms by (auto simp: written_def)
  then show ?thesis by (cases "ls ! i"; cases "ls0 ! i") simp
qed

lemma progress_done:
  assumes "progress opc L p s L t"
  shows "data_remaining t = 0" and "ack_stream t = ack_stream s @ (if L = 0 then [] else [0xFF])"
  using assms by (auto simp: progress_def unat_eq_0 [symmetric] simp del: unat_eq_0)

lemmas run_defs = feed_def step_def main_iteration_def flush_in_def decode_byte_def header_byte_def
  payload_byte_def pixel_byte_def store_color_def poke_def handoff_def next_color_def ack_def
  led_store_def LED_COUNT_def Let_def boot_def

subsection \<open>Invariants of every run\<close>

lemma pixel_frame_emitter:
  assumes "pixel_frame s t"
  shows "SSP1IF t = SSP1IF s" "byte_count t = byte_count s" "bit_position t = bit_position s"
    "isr_current_byte t = isr_current_byte s"
proof -
  let ?u = "(if data_remaining s = 0 then handoff s else s)
           \<lparr>color_index := color_index t, led_index := led_index t, wptr := wptr t, leds := leds t\<rparr>"
  have eq: "t = ?u" using assms by (simp add: pixel_frame_def)
  show "SSP1IF t = SSP1IF s" using arg_cong [OF eq, of SSP1IF] by (simp add: handoff_def)
  show "byte_count t = byte_count s" using arg_cong [OF eq, of byte_count] by (simp add: handoff_def)
  show "bit_position t = bit_position s"
    using arg_cong [OF eq, of bit_position] by (simp add: handoff_def)
  show "isr_current_byte t = isr_current_byte s"
    using arg_cong [OF eq, of isr_current_byte] by (simp add: handoff_def)
qed

lemma pixel_frame_emitter_inv:
  assumes "pixel_frame s t" and "emitter_inv s"
  shows "emitter_inv t"
proof (cases "data_remaining s = 0")
  case True
  from pixel_frame_fields(6) [OF assms(1) True] pixel_frame_emitter [OF assms(1)] assms(2)
  show ?thesis by (simp add: emitter_inv_def handed_off_def)
next
  case False
  from pixel_frame_fields(7) [OF assms(1) False] pixel_frame_emitter [OF assms(1)] assms(2)
  show ?thesis by (simp add: emitter_inv_def no_handoff_def)
qed

lemma decode_inv:
  assumes "chunk_inv index s"
  shows "\<exists>t. decode_byte index x s = Some t \<and> chunk_inv (Suc index) t \<and>
           (emitter_inv s \<longrightarrow> emitter_inv t)"
proof (cases "data_remaining s = 0")
  case True
  consider "index = 0" | "index = 1" | "index = 2" | "3 \<le> index" by arith
  then show ?thesis
  proof cases
    case 1
    with True assms show ?thesis
      by (simp add: header_branch header_byte_def chunk_inv_def cursor_ok_def emitter_inv_def
          LED_COUNT_def)
  next
    case 2
    with True assms show ?thesis
      by (simp add: header_branch header_byte_def chunk_inv_def cursor_ok_def emitter_inv_def
          split: option.splits)
  next
    case 3
    with True assms show ?thesis
      by (simp add: header_branch header_byte_def chunk_inv_def cursor_ok_def emitter_inv_def
          split: option.splits)
  next
    case 4
    with True assms show ?thesis
      by (simp add: header_branch header_byte_def chunk_inv_def cursor_ok_def emitter_inv_def
          split: option.splits)
  qed
next
  case False
  let ?s1 = "s\<lparr>previous_byte := current_byte s, current_byte := x\<rparr>"
  let ?s2 = "?s1\<lparr>data_remaining := data_remaining s - 1\<rparr>"
  have ok: "cursor_ok ?s2"
    using assms False by (simp add: chunk_inv_def cursor_ok_def split: option.splits)
  have room: "unat (toPC_count s) \<le> 1" "2 \<le> length (in_buf s)"
    and pot: "unat (toPC_count s) + 1 + (if index \<le> 2 then 1 else 0) \<le> 2"
    using assms False by (simp_all add: chunk_inv_def)
  have "\<exists>u. (if command ?s2 = 2 then pixel_byte ?s2 else Some ?s2) = Some u \<and> cursor_ok u \<and>
          data_remaining u = data_remaining s - 1 \<and> in_buf u = in_buf s \<and>
          toPC_count u = toPC_count s \<and> (emitter_inv s \<longrightarrow> emitter_inv u)"
  proof (cases "command s = 2")
    case True
    from pixel_inv [OF ok] obtain u where
      u: "pixel_byte ?s2 = Some u" "cursor_ok u" "pixel_frame ?s2 u" by blast
    have "emitter_inv s \<Longrightarrow> emitter_inv u"
      using pixel_frame_emitter_inv [OF u(3)] by (simp add: emitter_inv_def)
    then show ?thesis using True u(1,2) pixel_frame_fields(1-5) [OF u(3)] by auto
  next
    case F: False
    have "emitter_inv s \<Longrightarrow> emitter_inv ?s2" by (simp add: emitter_inv_def)
    then show ?thesis using F ok by auto
  qed
  then obtain u where u: "(if command ?s2 = 2 then pixel_byte ?s2 else Some ?s2) = Some u"
    "cursor_ok u" "data_remaining u = data_remaining s - 1" "in_buf u = in_buf s"
    "toPC_count u = toPC_count s" "emitter_inv s \<longrightarrow> emitter_inv u" by blast
  have pb: "decode_byte index x s = (if data_remaining u = 0 then ack u else Some u)"
    using False u(1) by (simp add: payload_branch payload_byte_def Let_def)
  have len: "length (leds u) = LED_COUNT" using u(2) by (simp add: cursor_ok_def)
  show ?thesis
  proof (cases "data_remaining u = 0")
    case True
    have c1: "unat (toPC_count u + 1) = Suc (unat (toPC_count u))"
      using room u(5) by (simp add: unat_word_ariths)
    let ?t = "u\<lparr>in_buf := (in_buf u)[unat (toPC_count u) := 0xFF], toPC_count := toPC_count u + 1\<rparr>"
    have a: "ack u = Some ?t" using room u(4,5) by (simp add: ack_def)
    have "chunk_inv (Suc index) ?t"
      using True u(2,4,5) room pot len c1
      by (auto simp add: chunk_inv_def cursor_ok_def split: option.splits if_splits)
    moreover have "emitter_inv s \<longrightarrow> emitter_inv ?t" using u(6) by (simp add: emitter_inv_def)
    ultimately show ?thesis using True by (simp add: pb a)
  next
    case F: False
    have "chunk_inv (Suc index) u"
      using F u(2,4,5) room pot len by (auto simp add: chunk_inv_def split: if_splits)
    then show ?thesis using F u(6) by (simp add: pb)
  qed
qed

lemma chunk_loop_inv:
  assumes "chunk_inv index s"
  shows "\<exists>t. chunk_loop index xs s = Some t \<and> chunk_inv (index + length xs) t \<and>
           (emitter_inv s \<longrightarrow> emitter_inv t)"
  using assms
proof (induction xs arbitrary: index s)
  case Nil
  then show ?case by simp
next
  case (Cons x xs)
  from decode_inv [OF Cons.prems, of x] obtain t where
    t: "decode_byte index x s = Some t" "chunk_inv (Suc index) t" "emitter_inv s \<longrightarrow> emitter_inv t"
    by blast
  from Cons.IH [OF t(2)] t(1,3) show ?case by auto
qed

lemma u16_count:
  assumes "unat (w :: u16) \<le> 384"
  shows "(w = 384) = (unat w = 384)" and "w \<noteq> 384 \<Longrightarrow> unat (w + 1) = Suc (unat w)"
proof -
  have "(w = 384) = (unat w = unat (384 :: u16))" by (simp only: word_unat_eq_iff)
  then show "(w = 384) = (unat w = 384)" by simp
  show "unat (w + 1) = Suc (unat w)" if "w \<noteq> 384"
    using assms by (simp add: unat_word_ariths)
qed

lemma isr_decoder_frame:
  assumes "isr s = Some t"
  shows "command t = command s \<and> color_index t = color_index s \<and> current_byte t = current_byte s \<and>
         previous_byte t = previous_byte s \<and> led_index t = led_index s \<and>
         data_remaining t = data_remaining s \<and> wptr t = wptr s \<and> toPC_count t = toPC_count s \<and>
         in_buf t = in_buf s \<and> to_host t = to_host s \<and> leds t = leds s"
  using assms
  by (auto simp: isr_def load_next_def emit_bit_def Let_def split: if_splits option.splits)

lemma spi_done_decoder_frame:
  assumes "spi_done s = Some t"
  shows "command t = command s \<and> color_index t = color_index s \<and> current_byte t = current_byte s \<and>
         previous_byte t = previous_byte s \<and> led_index t = led_index s \<and>
         data_remaining t = data_remaining s \<and> wptr t = wptr s \<and> toPC_count t = toPC_count s \<and>
         in_buf t = in_buf s \<and> to_host t = to_host s \<and> leds t = leds s"
proof (cases "spi_busy s \<and> GIE s")
  case True
  then have "isr (s\<lparr>spi_busy := False, SSP1IF := True\<rparr>) = Some t"
    using assms by (simp add: spi_done_def Let_def)
  from isr_decoder_frame [OF this] show ?thesis by simp
next
  case False
  then show ?thesis using assms by (auto simp: spi_done_def Let_def split: if_splits)
qed

lemma spi_done_emitter_inv:
  assumes "emitter_inv s" and "length (leds s) = LED_COUNT"
  shows "\<exists>t. spi_done s = Some t \<and> emitter_inv t"
proof (cases "spi_busy s")
  case False
  then show ?thesis using assms by (simp add: spi_done_def)
next
  case True
  then obtain q where q: "GIE s" "isr_ptr s = Some q" "q \<le> unat (byte_count s)"
    "unat (byte_count s) \<le> 384" "\<not> SSP1IF s"
    using assms(1) by (auto simp: emitter_inv_def LED_COUNT_def)
  note c = u16_count [OF q(4)]
  show ?thesis
  proof (cases "bit_position s = 0")
    case F: False
    then show ?thesis using True q
      by (simp add: spi_done_def isr_def emit_bit_def emitter_inv_def Let_def LED_COUNT_def)
  next
    case B: True
    show ?thesis
    proof (cases "byte_count s = 384")
      case T: True
      then show ?thesis using True q B
        by (simp add: spi_done_def isr_def emitter_inv_def Let_def LED_COUNT_def)
    next
      case F: False
      then have "unat (byte_count s) < 384" using q c(1) by simp
      then show ?thesis using True q B F c(2) assms(2)
        by (simp add: spi_done_def isr_def load_next_def emit_bit_def emitter_inv_def Let_def
            LED_COUNT_def)
    qed
  qed
qed

lemma flush_in_fields:
  "data_remaining (flush_in s) = data_remaining s" "leds (flush_in s) = leds s"
  "in_buf (flush_in s) = in_buf s" "wptr (flush_in s) = wptr s"
  "led_index (flush_in s) = led_index s" "emitter_inv (flush_in s) = emitter_inv s"
  "cursor_ok (flush_in s) = cursor_ok s"
  by (simp_all add: flush_in_def emitter_inv_def cursor_ok_def split: option.splits)

lemma chunk_inv_start:
  assumes "sys_inv s"
  shows "chunk_inv 0 (flush_in s)"
  using assms by (auto simp: sys_inv_def chunk_inv_def flush_in_fields toPC_count_flush)

lemma chunk_inv_end:
  assumes "chunk_inv index t" and "emitter_inv t"
  shows "sys_inv t"
  using assms by (auto simp: sys_inv_def chunk_inv_def)

lemma main_iteration_inv:
  assumes "sys_inv s"
  shows "\<exists>t. main_iteration ev s = Some t \<and> sys_inv t \<and> unat (toPC_count t) \<le> 2"
proof (cases ev)
  case NotReady
  then show ?thesis using assms by (simp add: main_iteration_def sys_inv_def)
next
  case NoOutData
  have "sys_inv (flush_in s)"
    using assms by (simp add: sys_inv_def flush_in_fields toPC_count_flush)
  then show ?thesis using NoOutData by (simp add: main_iteration_def toPC_count_flush)
next
  case (OutData xs)
  have e: "emitter_inv (flush_in s)" using assms by (simp add: sys_inv_def flush_in_fields)
  from chunk_loop_inv [OF chunk_inv_start [OF assms], of xs] e
  obtain t where t: "chunk_loop 0 xs (flush_in s) = Some t" "chunk_inv (length xs) t" "emitter_inv t"
    by auto
  have "unat (toPC_count t) \<le> 2" using t(2) by (simp add: chunk_inv_def)
  then show ?thesis using OutData t(1) chunk_inv_end [OF t(2,3)] by (simp add: main_iteration_def)
qed

lemma spi_done_inv:
  assumes "sys_inv s"
  shows "\<exists>t. spi_done s = Some t \<and> sys_inv t"
proof -
  have "emitter_inv s" "length (leds s) = LED_COUNT" using assms by (simp_all add: sys_inv_def)
  from spi_done_emitter_inv [OF this] obtain t where t: "spi_done s = Some t" "emitter_inv t"
    by blast
  from spi_done_decoder_frame [OF t(1)] assms t(2) have "sys_inv t"
    by (auto simp add: sys_inv_def cursor_ok_def split: option.splits)
  with t(1) show ?thesis by simp
qed

lemma run_inv:
  assumes "sys_inv s"
  shows "\<exists>t. run es s = Some t \<and> sys_inv t"
  using assms
proof (induction es arbitrary: s)
  case Nil
  then show ?case by simp
next
  case (Cons e es)
  have "\<exists>t. step e s = Some t \<and> sys_inv t"
  proof (cases e)
    case (Poll ev)
    then show ?thesis using main_iteration_inv [OF Cons.prems, of ev] by (auto simp: step_def)
  next
    case SpiDone
    then show ?thesis using spi_done_inv [OF Cons.prems] by (simp add: step_def)
  qed
  then obtain t where "step e s = Some t" "sys_inv t" by blast
  with Cons.IH [of t] show ?case by simp
qed

lemma power_on_inv:
  assumes "power_on ep s" and "2 \<le> ep"
  shows "sys_inv s"
  using assms by (simp add: power_on_def sys_inv_def emitter_inv_def)

lemma two_acks_attained:
  "map_option (\<lambda>t. (toPC_count t, in_buf t ! 0, in_buf t ! 1))
     (run [Poll (OutData [5, 2, 0, 1]), Poll (OutData [7, 1, 0, 9])] boot) = Some (2, 0xFF, 0xFF)"
  by (simp add: run_defs step_def)

subsection \<open>The waveform\<close>









subsection \<open>The steps of the emitter\<close>













lemma run_append:
  "run (xs @ ys) s = (case run xs s of None \<Rightarrow> None | Some t \<Rightarrow> run ys t)"
  by (induction xs arbitrary: s) (auto split: option.splits)



subsection \<open>The decoder and the activation flag\<close>

lemmas isr_defs = spi_done_def isr_def load_next_def emit_bit_def led_load_def

lemma store_color_flag:
  "store_color (s\<lparr>GIE := f\<rparr>) = map_option (\<lambda>t. t\<lparr>GIE := f\<rparr>) (store_color s)"
  by (simp add: store_color_def poke_def split: option.splits)

lemma store_color_keeps:
  "store_color s = Some t \<Longrightarrow> GIE t = GIE s \<and> data_remaining t = data_remaining s"
  by (auto simp: store_color_def poke_def split: option.splits if_splits)

lemma next_color_flag: "next_color (s\<lparr>GIE := f\<rparr>) = (next_color s)\<lparr>GIE := f\<rparr>"
  by (simp add: next_color_def Let_def)

lemma next_color_keeps: "GIE (next_color s) = GIE s" "data_remaining (next_color s) = data_remaining s"
  by (simp_all add: next_color_def Let_def)

lemma handoff_flag: "handoff (s\<lparr>GIE := f\<rparr>) = handoff s"
  by (simp add: handoff_def)

lemma ack_flag: "ack (s\<lparr>GIE := f\<rparr>) = map_option (\<lambda>t. t\<lparr>GIE := f\<rparr>) (ack s)"
  by (simp add: ack_def)

lemma ack_keeps: "ack s = Some t \<Longrightarrow> GIE t = GIE s"
  by (auto simp: ack_def split: if_splits)

lemma pixel_byte_flag:
  "pixel_byte (s\<lparr>GIE := f\<rparr>) =
     map_option (\<lambda>t. t\<lparr>GIE := (data_remaining s = 0 \<or> f)\<rparr>) (pixel_byte s)"
proof (cases "store_color s")
  case None
  then show ?thesis by (simp add: pixel_byte_def store_color_flag)
next
  case (Some t)
  have d: "data_remaining t = data_remaining s" using store_color_keeps [OF Some] by simp
  show ?thesis
    by (simp add: pixel_byte_def store_color_flag Some d next_color_flag handoff_flag)
       (simp add: handoff_def next_color_def Let_def)
qed

lemma pixel_byte_keeps:
  assumes "pixel_byte s = Some t"
  shows "GIE t = (GIE s \<or> data_remaining s = 0)" and "data_remaining t = data_remaining s"
proof -
  from assms obtain u where u: "store_color s = Some u"
    "t = next_color (if data_remaining u = 0 then handoff u else u)"
    by (auto simp: pixel_byte_def split: option.splits)
  note k = store_color_keeps [OF u(1)]
  show "GIE t = (GIE s \<or> data_remaining s = 0)"
    using k by (auto simp: u(2) next_color_keeps handoff_def)
  show "data_remaining t = data_remaining s"
    using k by (simp add: u(2) next_color_keeps handoff_def)
qed

lemma payload_byte_flag:
  "payload_byte (s\<lparr>GIE := f\<rparr>) =
     map_option (\<lambda>t. t\<lparr>GIE := (command s = 2 \<and> data_remaining s = 1 \<or> f)\<rparr>) (payload_byte s)"
proof -
  let ?s = "s\<lparr>data_remaining := data_remaining s - 1\<rparr>"
  have one: "(data_remaining s - 1 = 0) = (data_remaining s = 1)" by auto
  show ?thesis
  proof (cases "command s = 2")
    case False
    then show ?thesis by (simp add: payload_byte_def Let_def ack_def)
  next
    case True
    have c: "s\<lparr>GIE := f, data_remaining := data_remaining s - 1\<rparr> = ?s\<lparr>GIE := f\<rparr>" by simp
    show ?thesis
    proof (cases "pixel_byte ?s")
      case None
      then show ?thesis using True by (simp add: payload_byte_def Let_def c pixel_byte_flag)
    next
      case (Some t)
      have d: "data_remaining t = data_remaining s - 1" using pixel_byte_keeps(2) [OF Some] by simp
      show ?thesis
        using True by (simp add: payload_byte_def Let_def c pixel_byte_flag Some d ack_flag one)
    qed
  qed
qed

lemma decode_byte_flag:
  "decode_byte index x (s\<lparr>GIE := f\<rparr>) =
     map_option (\<lambda>t. t\<lparr>GIE := (command s = 2 \<and> data_remaining s = 1 \<or> f)\<rparr>) (decode_byte index x s)"
proof (cases "data_remaining s = 0")
  case True
  then show ?thesis by (simp add: decode_byte_def header_byte_def Let_def)
next
  case False
  let ?s = "s\<lparr>previous_byte := current_byte s, current_byte := x\<rparr>"
  have c: "s\<lparr>GIE := f, previous_byte := current_byte s, current_byte := x\<rparr> = ?s\<lparr>GIE := f\<rparr>"
    by simp
  show ?thesis using False payload_byte_flag [where s = ?s and f = f]
    by (simp add: decode_byte_def Let_def c)
qed

lemma decode_byte_sets_flag:
  assumes "decode_byte index x s = Some t"
  shows "GIE t = (GIE s \<or> command s = 2 \<and> data_remaining s = 1)"
proof -
  have "s = s\<lparr>GIE := GIE s\<rparr>" by simp
  then have "decode_byte index x s =
      map_option (\<lambda>t. t\<lparr>GIE := (command s = 2 \<and> data_remaining s = 1 \<or> GIE s)\<rparr>)
        (decode_byte index x s)"
    using decode_byte_flag [where s = s and f = "GIE s" and index = index and x = x] by simp
  with assms have "t = t\<lparr>GIE := (command s = 2 \<and> data_remaining s = 1 \<or> GIE s)\<rparr>" by simp
  from arg_cong [OF this, of GIE] show ?thesis by auto
qed

subsection \<open>Facts for the examples\<close>




subsection \<open>One byte and the staged acknowledgments\<close>

lemma ack_byte:
  assumes "data_remaining s = 0 \<or> cursor_ok s"
    and "unat (toPC_count s) < length (in_buf s)" and "unat (toPC_count s) < 255"
  shows "\<exists>t. decode_byte index x s = Some t \<and> to_host t = to_host s \<and>
           staged t = staged s @ (if data_remaining s = 1 then [0xFF] else []) \<and>
           (data_remaining s \<noteq> 0 \<longrightarrow> unat (data_remaining t) + 1 = unat (data_remaining s)) \<and>
           (data_remaining s = 0 \<and> index = 2 \<longrightarrow>
              unat (data_remaining t) = unat (current_byte s) + 256 * unat x) \<and>
           (data_remaining s = 0 \<and> index \<noteq> 2 \<longrightarrow> data_remaining t = 0)"
proof (cases "data_remaining s = 0")
  case True
  then show ?thesis
    by (simp add: header_branch header_byte_def staged_def unat_length_word)
next
  case False
  let ?s1 = "s\<lparr>previous_byte := current_byte s, current_byte := x\<rparr>"
  let ?s2 = "?s1\<lparr>data_remaining := data_remaining s - 1\<rparr>"
  have last: "(data_remaining s - 1 = 0) = (data_remaining s = 1)" by auto
  have down: "unat (data_remaining s - 1) + 1 = unat (data_remaining s)"
    using False by (simp add: unat_minus_one unat_gt_0)
  have "\<exists>u. (if command ?s2 = 2 then pixel_byte ?s2 else Some ?s2) = Some u \<and>
          data_remaining u = data_remaining s - 1 \<and> in_buf u = in_buf s \<and>
          toPC_count u = toPC_count s \<and> to_host u = to_host s"
  proof (cases "command s = 2")
    case True
    have "cursor_ok ?s2" using assms(1) False by (simp add: cursor_ok_def split: option.splits)
    from pixel_inv [OF this] obtain u where u: "pixel_byte ?s2 = Some u" "pixel_frame ?s2 u"
      by blast
    show ?thesis using True u(1) pixel_frame_fields(1-5) [OF u(2)] by simp
  next
    case False
    then show ?thesis by simp
  qed
  then obtain u where u: "(if command ?s2 = 2 then pixel_byte ?s2 else Some ?s2) = Some u"
    "data_remaining u = data_remaining s - 1" "in_buf u = in_buf s"
    "toPC_count u = toPC_count s" "to_host u = to_host s" by blast
  have pb: "decode_byte index x s = (if data_remaining s = 1 then ack u else Some u)"
    using False u(1,2) last by (simp add: payload_branch payload_byte_def Let_def)
  show ?thesis
  proof (cases "data_remaining s = 1")
    case True
    have "unat (toPC_count u) < length (in_buf u)" "unat (toPC_count u) < 255"
      using assms u by simp_all
    from ack_staged [OF this] u True False down show ?thesis
      by (auto simp add: pb staged_def)
  next
    case F: False
    show ?thesis using F False u down by (simp add: pb staged_def)
  qed
qed

subsection \<open>The two scratch bytes are dead at a chunk boundary\<close>

lemma store_color_prev:
  "store_color (s\<lparr>previous_byte := v\<rparr>) = map_option (\<lambda>t. t\<lparr>previous_byte := v\<rparr>) (store_color s)"
  by (simp add: store_color_def poke_def split: option.splits)

lemma next_color_prev: "next_color (s\<lparr>previous_byte := v\<rparr>) = (next_color s)\<lparr>previous_byte := v\<rparr>"
  by (simp add: next_color_def Let_def)

lemma handoff_prev: "handoff (s\<lparr>previous_byte := v\<rparr>) = (handoff s)\<lparr>previous_byte := v\<rparr>"
  by (simp add: handoff_def)

lemma ack_prev: "ack (s\<lparr>previous_byte := v\<rparr>) = map_option (\<lambda>t. t\<lparr>previous_byte := v\<rparr>) (ack s)"
  by (simp add: ack_def)

lemma pixel_byte_prev:
  "pixel_byte (s\<lparr>previous_byte := v\<rparr>) = map_option (\<lambda>t. t\<lparr>previous_byte := v\<rparr>) (pixel_byte s)"
  by (cases "store_color s")
     (simp_all add: pixel_byte_def store_color_prev next_color_prev handoff_prev)

lemma payload_byte_prev:
  "payload_byte (s\<lparr>previous_byte := v\<rparr>) = map_option (\<lambda>t. t\<lparr>previous_byte := v\<rparr>) (payload_byte s)"
proof -
  let ?s = "s\<lparr>data_remaining := data_remaining s - 1\<rparr>"
  have c: "s\<lparr>previous_byte := v, data_remaining := data_remaining s - 1\<rparr> = ?s\<lparr>previous_byte := v\<rparr>"
    by simp
  show ?thesis
  proof (cases "command s = 2")
    case False
    then show ?thesis by (simp add: payload_byte_def Let_def ack_def)
  next
    case True
    show ?thesis
    proof (cases "pixel_byte ?s")
      case None
      then show ?thesis using True by (simp add: payload_byte_def Let_def c pixel_byte_prev)
    next
      case (Some t)
      then show ?thesis using True by (simp add: payload_byte_def Let_def c pixel_byte_prev ack_prev)
    qed
  qed
qed

lemma decode_byte_prev:
  "decode_byte index x (s\<lparr>previous_byte := a\<rparr>) = decode_byte index x s"
  by (simp add: decode_byte_def)

lemma decode_byte_scratch:
  assumes "index \<noteq> 2"
  shows "decode_byte index x (s\<lparr>previous_byte := a, current_byte := c\<rparr>) =
         map_option (\<lambda>t. t\<lparr>previous_byte := c\<rparr>) (decode_byte index x s)"
proof -
  let ?s1 = "s\<lparr>previous_byte := current_byte s, current_byte := x\<rparr>"
  have e: "s\<lparr>previous_byte := c, current_byte := x\<rparr> = ?s1\<lparr>previous_byte := c\<rparr>" by simp
  show ?thesis
  proof (cases "data_remaining s = 0")
    case True
    then show ?thesis using assms by (simp add: decode_byte_def header_byte_def Let_def)
  next
    case False
    then show ?thesis using payload_byte_prev [where s = ?s1 and v = c]
      by (simp add: decode_byte_def e Let_def)
  qed
qed

lemma chunk_loop_prev:
  "chunk_loop index xs (s\<lparr>previous_byte := a\<rparr>) =
     (if xs = [] then Some (s\<lparr>previous_byte := a\<rparr>) else chunk_loop index xs s)"
  by (cases xs) (simp_all add: decode_byte_prev)

lemma without_scratch_upd:
  "without_scratch (s\<lparr>previous_byte := a\<rparr>) = without_scratch s"
  "without_scratch (s\<lparr>previous_byte := a, current_byte := c\<rparr>) = without_scratch s"
  by (simp_all add: without_scratch_def)

lemma chunk_loop_scratch:
  "map_option without_scratch (chunk_loop 0 xs (s\<lparr>previous_byte := a, current_byte := c\<rparr>)) =
   map_option without_scratch (chunk_loop 0 xs s)"
proof (cases xs)
  case Nil
  then show ?thesis by (simp add: without_scratch_upd)
next
  case (Cons x ys)
  show ?thesis
  proof (cases "decode_byte 0 x s")
    case None
    then show ?thesis using Cons by (simp add: decode_byte_scratch)
  next
    case (Some t)
    then show ?thesis using Cons
      by (simp add: decode_byte_scratch chunk_loop_prev without_scratch_upd)
  qed
qed

lemma scratch_eqD:
  assumes "without_scratch s' = without_scratch s"
  shows "s' = s\<lparr>previous_byte := previous_byte s', current_byte := current_byte s'\<rparr>"
proof -
  have "s' = (without_scratch s')\<lparr>previous_byte := previous_byte s', current_byte := current_byte s'\<rparr>"
    by (simp add: without_scratch_def)
  also have "\<dots> = (without_scratch s)\<lparr>previous_byte := previous_byte s', current_byte := current_byte s'\<rparr>"
    by (simp only: assms)
  also have "\<dots> = s\<lparr>previous_byte := previous_byte s', current_byte := current_byte s'\<rparr>"
    by (simp add: without_scratch_def)
  finally show ?thesis .
qed

lemma flush_in_scratch:
  "flush_in (s\<lparr>previous_byte := a, current_byte := c\<rparr>) = (flush_in s)\<lparr>previous_byte := a, current_byte := c\<rparr>"
  by (simp add: flush_in_def)

lemma feed_scratch:
  assumes "without_scratch s' = without_scratch s"
  shows "map_option without_scratch (feed cs s') = map_option without_scratch (feed cs s)"
  using assms
proof (induction cs arbitrary: s s')
  case Nil
  then show ?case by (simp add: feed_Nil)
next
  case (Cons c cs)
  let ?a = "previous_byte s'" and ?c = "current_byte s'"
  have s': "s' = s\<lparr>previous_byte := ?a, current_byte := ?c\<rparr>" using Cons.prems by (rule scratch_eqD)
  have "map_option without_scratch (chunk_loop 0 c (flush_in s')) =
        map_option without_scratch (chunk_loop 0 c (flush_in s))"
    by (subst s') (simp only: flush_in_scratch chunk_loop_scratch)
  then show ?case
  proof (cases "chunk_loop 0 c (flush_in s)")
    case None
    with \<open>map_option without_scratch (chunk_loop 0 c (flush_in s')) =
        map_option without_scratch (chunk_loop 0 c (flush_in s))\<close>
    show ?thesis by (simp add: feed_Cons)
  next
    case (Some t)
    with \<open>map_option without_scratch (chunk_loop 0 c (flush_in s')) =
        map_option without_scratch (chunk_loop 0 c (flush_in s))\<close>
    obtain t' where t': "chunk_loop 0 c (flush_in s') = Some t'" "without_scratch t' = without_scratch t"
      by auto
    from Cons.IH [OF t'(2)] Some t'(1) show ?thesis by (simp add: feed_Cons)
  qed
qed

lemma late_bytes_scratch:
  "data_remaining s = 0 \<Longrightarrow> 3 \<le> index \<Longrightarrow>
   \<exists>t. chunk_loop index xs s = Some t \<and> without_scratch t = without_scratch s"
proof (induction xs arbitrary: index s)
  case Nil
  show ?case by simp
next
  case (Cons x xs)
  let ?s1 = "s\<lparr>previous_byte := current_byte s, current_byte := x\<rparr>"
  have "data_remaining ?s1 = 0" using Cons.prems by simp
  from Cons.IH [OF this, of "Suc index"] Cons.prems
  show ?case by (simp add: late_byte without_scratch_upd)
qed

subsection \<open>What the decoder never writes\<close>

lemma store_color_statics:
  "store_color s = Some t \<Longrightarrow>
   current_byte t = current_byte s \<and> bit_position t = bit_position s \<and>
   byte_count t = byte_count s \<and> isr_current_byte t = isr_current_byte s \<and> SSP1IF t = SSP1IF s"
  by (auto simp: store_color_def poke_def split: option.splits if_splits)

lemma next_color_statics:
  "current_byte (next_color s) = current_byte s \<and> bit_position (next_color s) = bit_position s \<and>
   byte_count (next_color s) = byte_count s \<and>
   isr_current_byte (next_color s) = isr_current_byte s \<and> SSP1IF (next_color s) = SSP1IF s"
  by (simp add: next_color_def Let_def)

lemma pixel_byte_statics:
  assumes "pixel_byte s = Some t"
  shows "current_byte t = current_byte s \<and> bit_position t = bit_position s \<and>
   byte_count t = byte_count s \<and> isr_current_byte t = isr_current_byte s \<and> SSP1IF t = SSP1IF s"
proof -
  from assms obtain u where u: "store_color s = Some u"
    "t = next_color (if data_remaining u = 0 then handoff u else u)"
    by (auto simp: pixel_byte_def split: option.splits)
  from store_color_statics [OF u(1)] show ?thesis
    by (simp add: u(2) next_color_statics handoff_def)
qed

lemma ack_statics:
  "ack s = Some t \<Longrightarrow>
   current_byte t = current_byte s \<and> bit_position t = bit_position s \<and>
   byte_count t = byte_count s \<and> isr_current_byte t = isr_current_byte s \<and> SSP1IF t = SSP1IF s"
  by (auto simp: ack_def split: if_splits)

lemma payload_byte_statics:
  assumes "payload_byte s = Some t"
  shows "current_byte t = current_byte s \<and> bit_position t = bit_position s \<and>
   byte_count t = byte_count s \<and> isr_current_byte t = isr_current_byte s \<and> SSP1IF t = SSP1IF s"
proof -
  let ?s = "s\<lparr>data_remaining := data_remaining s - 1\<rparr>"
  from assms obtain u where u: "(if command ?s = 2 then pixel_byte ?s else Some ?s) = Some u"
    "(if data_remaining u = 0 then ack u else Some u) = Some t"
    by (auto simp: payload_byte_def Let_def split: option.splits)
  have a: "current_byte u = current_byte s \<and> bit_position u = bit_position s \<and>
   byte_count u = byte_count s \<and> isr_current_byte u = isr_current_byte s \<and> SSP1IF u = SSP1IF s"
  proof (cases "command ?s = 2")
    case True
    with u(1) have "pixel_byte ?s = Some u" by simp
    from pixel_byte_statics [OF this] show ?thesis by simp
  next
    case False
    with u(1) show ?thesis by auto
  qed
  show ?thesis
  proof (cases "data_remaining u = 0")
    case True
    with u(2) have "ack u = Some t" by simp
    from ack_statics [OF this] a show ?thesis by simp
  next
    case False
    with u(2) a show ?thesis by auto
  qed
qed

lemma decode_byte_statics:
  assumes "decode_byte index x s = Some t"
  shows "current_byte t = x \<and> bit_position t = bit_position s \<and>
   byte_count t = byte_count s \<and> isr_current_byte t = isr_current_byte s \<and> SSP1IF t = SSP1IF s"
proof (cases "data_remaining s = 0")
  case True
  with assms show ?thesis by (auto simp: header_branch header_byte_def split: if_splits)
next
  case False
  with assms have "payload_byte (s\<lparr>previous_byte := current_byte s, current_byte := x\<rparr>) = Some t"
    by (simp add: payload_branch)
  from payload_byte_statics [OF this] show ?thesis by simp
qed

lemma chunk_loop_statics:
  "chunk_loop index xs s = Some t \<Longrightarrow>
   bit_position t = bit_position s \<and> byte_count t = byte_count s \<and>
   isr_current_byte t = isr_current_byte s \<and> SSP1IF t = SSP1IF s"
proof (induction xs arbitrary: index s)
  case Nil
  then show ?case by simp
next
  case (Cons x xs)
  from Cons.prems obtain u where u: "decode_byte index x s = Some u"
    "chunk_loop (Suc index) xs u = Some t"
    by (auto split: option.splits)
  from Cons.IH [OF u(2)] decode_byte_statics [OF u(1)] show ?case by simp
qed

lemma flush_in_statics:
  "bit_position (flush_in s) = bit_position s \<and> byte_count (flush_in s) = byte_count s \<and>
   isr_current_byte (flush_in s) = isr_current_byte s \<and> SSP1IF (flush_in s) = SSP1IF s"
  by (simp add: flush_in_def)


lemma feed_statics:
  "feed cs s = Some t \<Longrightarrow>
   bit_position t = bit_position s \<and> byte_count t = byte_count s \<and>
   isr_current_byte t = isr_current_byte s \<and> SSP1IF t = SSP1IF s"
proof (induction cs arbitrary: s)
  case Nil
  then show ?case by (simp add: feed_Nil)
next
  case (Cons c cs)
  from Cons.prems obtain u where u: "chunk_loop 0 c (flush_in s) = Some u" "feed cs u = Some t"
    by (auto simp: feed_Cons split: option.splits)
  from Cons.IH [OF u(2)] chunk_loop_statics [OF u(1)] show ?case
    by (simp add: flush_in_statics)
qed

subsection \<open>The chunk in which a payload ends\<close>

lemma feed_append:
  "feed (xs @ ys) s = (case feed xs s of None \<Rightarrow> None | Some t \<Rightarrow> feed ys t)"
  unfolding feed_def by (simp add: run_append)

lemma feed_snoc:
  "feed (front @ [c]) s =
     (case feed front s of None \<Rightarrow> None | Some t \<Rightarrow> chunk_loop 0 c (flush_in t))"
  by (simp add: feed_append feed_Cons feed_Nil split: option.splits)

lemma scratch_fields:
  assumes "without_scratch t = without_scratch s"
  shows "data_remaining t = data_remaining s" and "in_buf t = in_buf s" and "leds t = leds s"
    and "command t = command s"
proof -
  from scratch_eqD [OF assms] obtain a c where "t = s\<lparr>previous_byte := a, current_byte := c\<rparr>"
    by blast
  then show "data_remaining t = data_remaining s" and "in_buf t = in_buf s" and "leds t = leds s"
    and "command t = command s"
    by simp_all
qed

subsection \<open>A pass of the emitter among other events\<close>









section \<open>The claims\<close>

subsection \<open>A set-pixels command\<close>

text \<open>
  C1. A command with opcode 2 and declared length \<open>3 * K\<close>, \<open>K \<le> LED_COUNT\<close>, whose
  header opens a chunk while the decoder is between commands and whose payload follows
  in any chunking: once header and payload are consumed, entry \<open>i < K\<close> of the pixel
  buffer holds \<open>g = payload[3i+1]\<close>, \<open>r = payload[3i]\<close>, \<open>b = payload[3i+2]\<close>, every other
  entry is as before, and one \<open>0xFF\<close> has joined the acknowledgments (none when
  \<open>K = 0\<close>). An instance is the header \<open>[2, 3, 0]\<close> with payload \<open>[10, 20, 30]\<close>.
\<close>

theorem set_pixels_stores_triples:
  assumes "data_remaining s = 0" and "0 < length (in_buf s)" and "length (leds s) = LED_COUNT"
    and "unat lo + 256 * unat hi = 3 * K" and "K \<le> LED_COUNT"
    and "length (p0 @ concat cs) = 3 * K"
  shows "\<exists>t. feed (([2, lo, hi] @ p0) # cs) s = Some t \<and>
           data_remaining t = 0 \<and> length (leds t) = LED_COUNT \<and>
           (\<forall>i<K. leds t ! i = \<lparr>g = (p0 @ concat cs) ! (3 * i + 1),
                                 r = (p0 @ concat cs) ! (3 * i),
                                 b = (p0 @ concat cs) ! (3 * i + 2)\<rparr>) \<and>
           (\<forall>i. K \<le> i \<and> i < LED_COUNT \<longrightarrow> leds t ! i = leds s ! i) \<and>
           ack_stream t = ack_stream s @ (if K = 0 then [] else [0xFF])"
proof -
  let ?p = "p0 @ concat cs"
  have n: "3 * K = length p0 + length (concat cs)" "3 * K \<le> unat lo + 256 * unat hi"
    using assms(4,6) by simp_all
  from command_feed [OF assms(1-3) refl n, of 2 "[]"] assms(4)
  obtain t where t: "feed (([2, lo, hi] @ p0) # cs) s = Some t" "progress 2 (3 * K) ?p s (3 * K) t"
    by auto
  have w: "written ?p (3 * K) (leds s) (leds t)"
    using t(2) by (simp add: progress_def cursor_at_def)
  have a: "\<forall>i<K. leds t ! i = \<lparr>g = ?p ! (3 * i + 1), r = ?p ! (3 * i), b = ?p ! (3 * i + 2)\<rparr>"
    using written_full [OF w] assms(5) by auto
  have b: "\<forall>i. K \<le> i \<and> i < LED_COUNT \<longrightarrow> leds t ! i = leds s ! i"
    using written_old [OF w] by auto
  have "length (leds t) = LED_COUNT" using w by (simp add: written_def)
  with t(1) a b progress_done [OF t(2)] show ?thesis by simp
qed

theorem set_pixels_stores_triples_witness:
  "\<exists>t. feed [[2, 3, 0, 10, 20, 30]] boot = Some t \<and> leds t ! 0 = \<lparr>g = 20, r = 10, b = 30\<rparr> \<and>
     leds t ! 1 = leds boot ! 1 \<and> ack_stream t = [0xFF]"
proof -
  have h: "data_remaining boot = 0" "0 < length (in_buf boot)" "length (leds boot) = LED_COUNT"
    "unat (3 :: u8) + 256 * unat (0 :: u8) = 3 * 1" "1 \<le> LED_COUNT"
    "length ([10, 20, 30] @ concat ([] :: u8 list list)) = 3 * 1"
    by (simp_all add: boot_fields LED_COUNT_def)
  from set_pixels_stores_triples [OF h] show ?thesis
    by (auto simp add: boot_fields LED_COUNT_def ack_stream_def staged_def)
qed

subsection \<open>Commands with another opcode\<close>

text \<open>
  C7. A command whose opcode is not 2: consuming header and payload leaves the pixel
  buffer as it was and performs no hand-off (\<open>isr_ptr\<close>, GIE and SSP1BUF are
  untouched), and one \<open>0xFF\<close> joins the acknowledgments when the payload is not empty.
  An instance is the header \<open>[5, 2, 0]\<close> with payload \<open>[0xAA, 0xBB]\<close>.
\<close>

theorem other_opcode_no_buffer_effect:
  assumes "data_remaining s = 0" and "0 < length (in_buf s)" and "length (leds s) = LED_COUNT"
    and "opc \<noteq> 2" and "length (p0 @ concat cs) = unat lo + 256 * unat hi"
  shows "\<exists>t. feed (([opc, lo, hi] @ p0) # cs) s = Some t \<and>
           data_remaining t = 0 \<and> leds t = leds s \<and>
           isr_ptr t = isr_ptr s \<and> GIE t = GIE s \<and> SSP1BUF t = SSP1BUF s \<and>
           ack_stream t = ack_stream s @ (if p0 @ concat cs = [] then [] else [0xFF])"
proof -
  let ?L = "unat lo + 256 * unat hi"
  have n: "?L = length p0 + length (concat cs)" "?L \<le> ?L"
    using assms(5) by simp_all
  from command_feed [OF assms(1-3) refl n, of opc "[]"]
  obtain t where t: "feed (([opc, lo, hi] @ p0) # cs) s = Some t"
    "progress opc ?L (p0 @ concat cs) s ?L t"
    by auto
  have "leds t = leds s" "no_handoff s t" using t(2) assms(4) by (simp_all add: progress_def)
  moreover have "(p0 @ concat cs = []) = (?L = 0)" using assms(5) by (metis length_0_conv)
  ultimately show ?thesis using t(1) progress_done [OF t(2)]
    by (simp add: no_handoff_def del: append_is_Nil_conv)
qed

theorem other_opcode_no_buffer_effect_witness:
  "\<exists>t. feed [[5, 2, 0, 0xAA, 0xBB]] boot = Some t \<and> leds t = leds boot \<and>
     isr_ptr t = None \<and> \<not> GIE t \<and> SSP1BUF t = [] \<and> ack_stream t = [0xFF]"
proof -
  have h: "data_remaining boot = 0" "0 < length (in_buf boot)" "length (leds boot) = LED_COUNT"
    "(5 :: u8) \<noteq> 2"
    "length ([0xAA, 0xBB] @ concat ([] :: u8 list list)) = unat (2 :: u8) + 256 * unat (0 :: u8)"
    by (simp_all add: boot_fields LED_COUNT_def)
  from other_opcode_no_buffer_effect [OF h] show ?thesis
    by (auto simp add: boot_fields ack_stream_def staged_def)
qed

subsection \<open>Acknowledgments\<close>

text \<open>
  C3. First, at every byte of every input stream, that is in the state \<open>s'\<close> reached
  from power-on by any run and then the bytes \<open>pre\<close> of the current chunk: a payload
  byte lowers \<open>data_remaining\<close> by exactly one; whatever the opcode, the byte appends
  exactly one \<open>0xFF\<close> to the staged acknowledgments when it is the last payload byte of
  the command (\<open>data_remaining\<close> goes from 1 to 0), and appends nothing otherwise;
  nothing is sent or reordered by the byte. At chunk position 2 between commands the
  declared length is latched, so a header declaring length 0 leaves \<open>data_remaining\<close>
  at 0 (no payload phase) and stages no acknowledgment.
  Second, for a whole command read from a reachable state between commands, whatever its
  opcode and its declared length \<open>L\<close>: after the header and the first \<open>n \<le> L\<close> payload
  bytes, \<open>L - n\<close> bytes remain, and the acknowledgments produced so far have grown by
  one \<open>0xFF\<close> exactly when \<open>n = L\<close> and \<open>L\<close> is not zero.
\<close>

theorem ack_iff_last_payload_byte:
  assumes "power_on ep s0" and "2 \<le> ep" and "run es s0 = Some s"
    and "chunk_loop 0 pre (flush_in s) = Some s'"
  shows "(\<exists>t. decode_byte (length pre) x s' = Some t \<and> to_host t = to_host s' \<and>
            staged t = staged s' @ (if data_remaining s' = 1 then [0xFF] else []) \<and>
            (data_remaining s' \<noteq> 0 \<longrightarrow>
               unat (data_remaining t) + 1 = unat (data_remaining s')) \<and>
            (data_remaining s' = 0 \<and> length pre = 2 \<longrightarrow>
               unat (data_remaining t) = unat (current_byte s') + 256 * unat x) \<and>
            (data_remaining s' = 0 \<and> length pre \<noteq> 2 \<longrightarrow> data_remaining t = 0)) \<and>
         (data_remaining s = 0 \<and> n = length (p0 @ concat cs) \<and> n \<le> unat lo + 256 * unat hi \<longrightarrow>
            (\<exists>t. feed (([opc, lo, hi] @ p0) # cs) s = Some t \<and>
               unat (data_remaining t) = unat lo + 256 * unat hi - n \<and>
               ack_stream t =
                 ack_stream s @ (if 0 < n \<and> n = unat lo + 256 * unat hi then [0xFF] else [])))"
proof (intro conjI impI)
  from run_inv [OF power_on_inv [OF assms(1,2)], of es] assms(3) have inv: "sys_inv s" by simp
  from chunk_loop_inv [OF chunk_inv_start [OF inv], of pre] assms(4)
  have "chunk_inv (length pre) s'" by simp
  then have c: "data_remaining s' = 0 \<or> cursor_ok s'"
    "unat (toPC_count s') < length (in_buf s') \<or> data_remaining s' = 0"
    "unat (toPC_count s') < 255"
    by (auto simp: chunk_inv_def split: if_splits)
  show "\<exists>t. decode_byte (length pre) x s' = Some t \<and> to_host t = to_host s' \<and>
            staged t = staged s' @ (if data_remaining s' = 1 then [0xFF] else []) \<and>
            (data_remaining s' \<noteq> 0 \<longrightarrow>
               unat (data_remaining t) + 1 = unat (data_remaining s')) \<and>
            (data_remaining s' = 0 \<and> length pre = 2 \<longrightarrow>
               unat (data_remaining t) = unat (current_byte s') + 256 * unat x) \<and>
            (data_remaining s' = 0 \<and> length pre \<noteq> 2 \<longrightarrow> data_remaining t = 0)"
  proof (cases "data_remaining s' = 0")
    case True
    then show ?thesis by (simp add: header_branch header_byte_def staged_def unat_length_word)
  next
    case False
    with c(2) have "unat (toPC_count s') < length (in_buf s')" by simp
    from ack_byte [OF c(1) this c(3)] show ?thesis .
  qed
next
  assume a: "data_remaining s = 0 \<and> n = length (p0 @ concat cs) \<and> n \<le> unat lo + 256 * unat hi"
  let ?L = "unat lo + 256 * unat hi"
  from run_inv [OF power_on_inv [OF assms(1,2)], of es] assms(3) have "sys_inv s" by simp
  then have h: "0 < length (in_buf s)" "length (leds s) = LED_COUNT"
    by (auto simp add: sys_inv_def)
  have n: "n = length p0 + length (concat cs)" "n \<le> ?L" "data_remaining s = 0"
    using a by simp_all
  from command_feed [OF n(3) h refl n(1,2), of opc "[]"]
  obtain t where t: "feed (([opc, lo, hi] @ p0) # cs) s = Some t"
    "progress opc ?L (p0 @ concat cs) s n t"
    by auto
  have "unat (data_remaining t) = ?L - n"
    "ack_stream t = ack_stream s @ (if 0 < n \<and> n = ?L then [0xFF] else [])"
    using t(2) by (auto simp: progress_def)
  with t(1) show "\<exists>t. feed (([opc, lo, hi] @ p0) # cs) s = Some t \<and>
               unat (data_remaining t) = ?L - n \<and>
               ack_stream t = ack_stream s @ (if 0 < n \<and> n = ?L then [0xFF] else [])"
    by simp
qed

theorem ack_iff_last_payload_byte_witness:
  "\<exists>s'. chunk_loop 0 [5, 2, 0, 0xAA] (flush_in boot) = Some s' \<and> data_remaining s' = 1 \<and>
     (\<exists>t. decode_byte 4 0xBB s' = Some t \<and> staged t = staged s' @ [0xFF] \<and>
        data_remaining t = 0) \<and>
     (\<exists>t. feed [[5, 2, 0, 0xAA]] boot = Some t \<and> unat (data_remaining t) = 1 \<and>
        ack_stream t = []) \<and>
     (\<exists>t. feed [[5, 2, 0, 0xAA, 0xBB]] boot = Some t \<and> unat (data_remaining t) = 0 \<and>
        ack_stream t = [0xFF])"
proof -
  have "\<exists>s'. chunk_loop 0 [5, 2, 0, 0xAA] (flush_in boot) = Some s' \<and> data_remaining s' = 1"
    by (simp add: run_defs)
  then obtain s' where s': "chunk_loop 0 [5, 2, 0, 0xAA] (flush_in boot) = Some s'"
    "data_remaining s' = 1" by blast
  have e: "(2 :: nat) \<le> 64" "run [] boot = Some boot" by simp_all
  note th = ack_iff_last_payload_byte [OF power_on_boot e s'(1)]
  have a: "\<exists>t. decode_byte 4 0xBB s' = Some t \<and> staged t = staged s' @ [0xFF] \<and>
        data_remaining t = 0"
  proof -
    have l: "length [5, 2, 0, 0xAA :: u8] = 4" by simp
    from th [of "0xBB" 0 "[]" "[]" 0 0 0, THEN conjunct1, unfolded l] s'(2)
    obtain t where t: "decode_byte 4 0xBB s' = Some t" "staged t = staged s' @ [0xFF]"
      "unat (data_remaining t) + 1 = 1" by auto
    from t(3) have "data_remaining t = 0" by (simp add: unat_eq_0)
    with t(1,2) show ?thesis by blast
  qed
  have b1: "\<exists>t. feed [[5, 2, 0, 0xAA]] boot = Some t \<and> unat (data_remaining t) = 1 \<and>
        ack_stream t = []"
    using th [of 0 1 "[0xAA]" "[]" 2 0 5, THEN conjunct2]
    by (simp add: boot_fields ack_stream_def staged_def)
  have b2: "\<exists>t. feed [[5, 2, 0, 0xAA, 0xBB]] boot = Some t \<and> unat (data_remaining t) = 0 \<and>
        ack_stream t = [0xFF]"
    using th [of 0 2 "[0xAA, 0xBB]" "[]" 2 0 5, THEN conjunct2]
    by (simp add: boot_fields ack_stream_def staged_def)
  from s' a b1 b2 show ?thesis by blast
qed

subsection \<open>Bytes after a command in the same chunk\<close>

text \<open>
  C9. Between commands (\<open>data_remaining = 0\<close>) a byte at chunk position 3 or later only
  passes through the scratch variables \<open>current_byte\<close> and \<open>previous_byte\<close>: the stored
  opcode, the declared length, the write cursor, the colour phase, the LED index, the
  pixel buffer and the acknowledgment queue are unchanged, and so it stays to the end of
  the chunk. The two scratch variables are overwritten before they are read again:
  whatever chunks follow, the decoder behaves as if the bytes had never arrived.
\<close>

theorem late_bytes_discarded:
  assumes "data_remaining s = 0" and "3 \<le> index"
  shows "decode_byte index x s = Some (s\<lparr>previous_byte := current_byte s, current_byte := x\<rparr>) \<and>
         (\<exists>t. chunk_loop index xs s = Some t \<and> command t = command s \<and>
            data_remaining t = data_remaining s \<and> wptr t = wptr s \<and>
            color_index t = color_index s \<and> led_index t = led_index s \<and> leds t = leds s \<and>
            toPC_count t = toPC_count s \<and> in_buf t = in_buf s \<and> to_host t = to_host s \<and>
            without_scratch t = without_scratch s \<and>
            (\<forall>cs. map_option without_scratch (feed cs t) = map_option without_scratch (feed cs s)))"
proof -
  from late_bytes_scratch [OF assms, of xs] obtain t where
    t: "chunk_loop index xs s = Some t" "without_scratch t = without_scratch s" by blast
  from late_bytes [OF assms, of xs] t(1) have
    "command t = command s \<and> data_remaining t = data_remaining s \<and> wptr t = wptr s \<and>
     color_index t = color_index s \<and> led_index t = led_index s \<and> leds t = leds s \<and>
     toPC_count t = toPC_count s \<and> in_buf t = in_buf s \<and> to_host t = to_host s"
    by auto
  with late_byte [OF assms, of x] t feed_scratch [OF t(2)] show ?thesis by blast
qed

theorem late_bytes_discarded_witness:
  "decode_byte 3 7 boot = Some (boot\<lparr>previous_byte := 0, current_byte := 7\<rparr>) \<and>
   (\<exists>t. chunk_loop 3 [7, 8, 9] boot = Some t \<and> command t = 0 \<and> data_remaining t = 0 \<and>
      wptr t = None \<and> color_index t = 0 \<and> led_index t = 0 \<and> leds t = leds boot \<and>
      toPC_count t = 0 \<and> in_buf t = in_buf boot \<and> to_host t = [] \<and>
      map_option without_scratch (feed [[2, 3, 0, 10, 20, 30]] t) =
      map_option without_scratch (feed [[2, 3, 0, 10, 20, 30]] boot))"
  using late_bytes_discarded [of boot 3 7 "[7, 8, 9]"]
  by (auto simp add: boot_fields simp del: chunk_loop.simps)

subsection \<open>Where the next header is looked for\<close>

text \<open>
  C4, as the code has it. The header is read by chunk position (\<open>switch (index)\<close>), not
  by a count of header bytes. After the zero-length header \<open>[2, 0, 0]\<close> the bytes
  \<open>[5, 2, 0]\<close> are a new header when they open the next chunk, and are dropped when
  they follow in the same chunk (positions 3 to 5).
\<close>

theorem header_after_zero_length_counterexample:
  "map_option (\<lambda>t. (command t, data_remaining t)) (feed [[2, 0, 0, 5, 2, 0]] boot) = Some (2, 0) \<and>
   map_option (\<lambda>t. (command t, data_remaining t)) (feed [[2, 0, 0], [5, 2, 0]] boot) = Some (5, 2)"
  by (simp add: run_defs)

text \<open>
  C4, amended. A command is read from a state between commands: its header opens a
  chunk, and its payload, of the declared length, ends in the chunk \<open>c @ rest\<close>, where
  \<open>c\<close> goes up to the last payload byte (up to the header when the length is zero) and
  \<open>rest\<close> is what the host put behind it in the same chunk. If \<open>rest\<close> is empty, or
  the payload ends at chunk position 2 or later (\<open>3 \<le> length c\<close>): the bytes of
  \<open>rest\<close> are not parsed as a header but dropped (the state is the one reached without
  them, the two scratch bytes apart), \<open>data_remaining\<close> is 0 at the end of the chunk,
  and the first three bytes of the next chunk are parsed as a new header: the opcode is
  stored, the cursor is rewound and the length is latched, with no effect on the pixel
  buffer; the bytes after them in that chunk are decoded from position 3 on. Nothing is
  said here of a payload that ends at chunk position 0 or 1 of a chunk that goes on.
\<close>

theorem next_header_opens_next_chunk:
  assumes "data_remaining s = 0" and "0 < length (in_buf s)" and "length (leds s) = LED_COUNT"
    and "([opc, lo, hi] @ p0) # cs = front @ [c]"
    and "length (p0 @ concat cs) = unat lo + 256 * unat hi"
    and "rest = [] \<or> 3 \<le> length c"
  shows "\<exists>t0 t. feed (front @ [c]) s = Some t0 \<and> feed (front @ [c @ rest]) s = Some t \<and>
           without_scratch t = without_scratch t0 \<and> data_remaining t = 0 \<and>
           (\<exists>u. feed [[opc', lo', hi']] t = Some u \<and> command u = opc' \<and>
              unat (data_remaining u) = unat lo' + 256 * unat hi' \<and>
              wptr u = Some 0 \<and> color_index u = 0 \<and> led_index u = 0 \<and> leds u = leds t \<and>
              (\<forall>more. feed [[opc', lo', hi'] @ more] t = chunk_loop 3 more u))"
proof -
  let ?L = "unat lo + 256 * unat hi"
  have n: "?L = length p0 + length (concat cs)" "?L \<le> ?L"
    using assms(5) by simp_all
  from command_feed [OF assms(1-3) refl n, of opc "[]"]
  obtain t0 where t0: "feed (([opc, lo, hi] @ p0) # cs) s = Some t0"
    "progress opc ?L (p0 @ concat cs) s ?L t0"
    by auto
  have f0: "feed (front @ [c]) s = Some t0" using t0(1) by (simp only: assms(4))
  have d: "data_remaining t0 = 0" using progress_done(1) [OF t0(2)] .
  have b: "0 < length (in_buf t0)" using t0(2) by (simp add: progress_def)
  have l: "length (leds t0) = LED_COUNT"
  proof (cases "opc = 2")
    case True
    then show ?thesis using t0(2) by (simp add: progress_def cursor_at_def written_def)
  next
    case False
    then show ?thesis using t0(2) assms(3) by (simp add: progress_def)
  qed
  from f0 obtain s1 where s1: "feed front s = Some s1" "chunk_loop 0 c (flush_in s1) = Some t0"
    by (auto simp: feed_snoc split: option.splits)
  have whole: "feed (front @ [c @ rest]) s = chunk_loop (length c) rest t0"
    by (simp add: feed_snoc s1 chunk_loop_append)
  have "\<exists>t. chunk_loop (length c) rest t0 = Some t \<and> without_scratch t = without_scratch t0"
  proof (cases "rest = []")
    case True
    then show ?thesis by simp
  next
    case False
    with assms(6) have "3 \<le> length c" by simp
    from late_bytes_scratch [OF d this] show ?thesis .
  qed
  then obtain t where t: "chunk_loop (length c) rest t0 = Some t"
    "without_scratch t = without_scratch t0" by blast
  note k = scratch_fields [OF t(2)]
  have dt: "data_remaining t = 0" using k(1) d by simp
  have bt: "0 < length (in_buf t)" using k(2) b by simp
  have lt: "length (leds t) = LED_COUNT" using k(3) l by simp
  from header_chunk [OF dt bt lt, of opc' lo' hi' "[]"]
  obtain u where u: "chunk_loop 0 [opc', lo', hi'] (flush_in t) = Some u"
    "progress opc' (unat lo' + 256 * unat hi') [] t 0 u"
    "wptr u = Some 0" "color_index u = 0" "led_index u = 0" "leds u = leds t"
    by blast
  have fu: "feed [[opc', lo', hi']] t = Some u"
    using u(1) by (simp only: feed_Cons feed_Nil option.case)
  have more: "feed [[opc', lo', hi'] @ more] t = chunk_loop 3 more u" for more
  proof -
    have e: "chunk_loop 0 ([opc', lo', hi'] @ more) (flush_in t) = chunk_loop 3 more u"
      by (simp only: chunk_loop_append u(1) option.case) (simp add: numeral_3_eq_3)
    show ?thesis unfolding feed_Cons e by (simp add: feed_Nil split: option.splits)
  qed
  have "command u = opc'" "unat (data_remaining u) = unat lo' + 256 * unat hi'"
    using u(2) by (simp_all add: progress_def)
  with f0 fu more u(3-6) t dt whole show ?thesis by simp
qed

theorem next_header_opens_next_chunk_witness:
  "(\<exists>t0 t. feed [[2, 0, 0]] boot = Some t0 \<and> feed [[2, 0, 0, 9, 9]] boot = Some t \<and>
      without_scratch t = without_scratch t0 \<and> data_remaining t = 0 \<and>
      (\<exists>u. feed [[5, 2, 0]] t = Some u \<and> command u = 5 \<and> unat (data_remaining u) = 2 \<and>
         wptr u = Some 0 \<and> color_index u = 0 \<and> led_index u = 0 \<and> leds u = leds t)) \<and>
   (\<exists>t. feed [[2, 1, 0], [10]] boot = Some t \<and> data_remaining t = 0 \<and>
      (\<exists>u. feed [[5, 2, 0]] t = Some u \<and> command u = 5 \<and> unat (data_remaining u) = 2 \<and>
         wptr u = Some 0 \<and> leds u = leds t))"
proof -
  have h: "data_remaining boot = 0" "0 < length (in_buf boot)" "length (leds boot) = LED_COUNT"
    by (simp_all add: boot_fields LED_COUNT_def)
  have a: "([2, 0, 0] @ []) # [] = [] @ [[2, 0, 0 :: u8]]"
    "length ([] @ concat ([] :: u8 list list)) = unat (0 :: u8) + 256 * unat (0 :: u8)"
    "[9, 9 :: u8] = [] \<or> 3 \<le> length [2, 0, 0 :: u8]"
    by simp_all
  have b: "([2, 1, 0] @ []) # [[10]] = [[2, 1, 0]] @ [[10 :: u8]]"
    "length ([] @ concat [[10 :: u8]]) = unat (1 :: u8) + 256 * unat (0 :: u8)"
    "([] :: u8 list) = [] \<or> 3 \<le> length [10 :: u8]"
    by simp_all
  from next_header_opens_next_chunk [OF h a, where opc' = 5 and lo' = 2 and hi' = 0]
  have 1: "\<exists>t0 t. feed [[2, 0, 0]] boot = Some t0 \<and> feed [[2, 0, 0, 9, 9]] boot = Some t \<and>
      without_scratch t = without_scratch t0 \<and> data_remaining t = 0 \<and>
      (\<exists>u. feed [[5, 2, 0]] t = Some u \<and> command u = 5 \<and> unat (data_remaining u) = 2 \<and>
         wptr u = Some 0 \<and> color_index u = 0 \<and> led_index u = 0 \<and> leds u = leds t)"
    by auto
  from next_header_opens_next_chunk [OF h b, where opc' = 5 and lo' = 2 and hi' = 0]
  have 2: "\<exists>t. feed [[2, 1, 0], [10]] boot = Some t \<and> data_remaining t = 0 \<and>
      (\<exists>u. feed [[5, 2, 0]] t = Some u \<and> command u = 5 \<and> unat (data_remaining u) = 2 \<and>
         wptr u = Some 0 \<and> leds u = leds t)"
    by auto
  from 1 2 show ?thesis by blast
qed

subsection \<open>A trailing partial group\<close>

text \<open>
  C6, as the code has it. Each payload byte is stored when it arrives, so the single
  trailing byte of the command \<open>[2, 1, 0]\<close> with payload \<open>[10]\<close> changes channel \<open>r\<close>
  of entry 0.
\<close>

theorem partial_group_counterexample:
  "map_option (\<lambda>t. r (leds t ! 0)) (feed [[2, 1, 0]] boot) = Some 0 \<and>
   map_option (\<lambda>t. r (leds t ! 0)) (feed [[2, 1, 0], [10]] boot) = Some 10"
  by (simp add: run_defs)

text \<open>
  C6, amended. For a set-pixels command whose declared length \<open>L\<close> is not a multiple
  of 3, with \<open>K = L div 3\<close>: the entries below \<open>K\<close> hold their triples; if
  \<open>K < LED_COUNT\<close> the first byte of the trailing group is stored in channel \<open>r\<close> of
  entry \<open>K\<close> and the second one, when there is one, in channel \<open>g\<close>, channel \<open>b\<close> of
  entry \<open>K\<close> and all entries above \<open>K\<close> keep their old values; if \<open>K \<ge> LED_COUNT\<close>
  the group is consumed without effect (all entries hold their triples).
\<close>

theorem partial_group_is_stored:
  assumes "data_remaining s = 0" and "0 < length (in_buf s)" and "length (leds s) = LED_COUNT"
    and "L = unat lo + 256 * unat hi" and "length (p0 @ concat cs) = L" and "L mod 3 \<noteq> 0"
  shows "\<exists>t. feed (([2, lo, hi] @ p0) # cs) s = Some t \<and>
           (\<forall>i<LED_COUNT. i < L div 3 \<longrightarrow>
              leds t ! i = \<lparr>g = (p0 @ concat cs) ! (3 * i + 1), r = (p0 @ concat cs) ! (3 * i),
                            b = (p0 @ concat cs) ! (3 * i + 2)\<rparr>) \<and>
           (\<forall>i<LED_COUNT. L div 3 < i \<longrightarrow> leds t ! i = leds s ! i) \<and>
           (L div 3 < LED_COUNT \<longrightarrow>
              r (leds t ! (L div 3)) = (p0 @ concat cs) ! (3 * (L div 3)) \<and>
              g (leds t ! (L div 3)) =
                (if L mod 3 = 2 then (p0 @ concat cs) ! (3 * (L div 3) + 1)
                 else g (leds s ! (L div 3))) \<and>
              b (leds t ! (L div 3)) = b (leds s ! (L div 3)))"
proof -
  let ?p = "p0 @ concat cs" and ?K = "L div 3"
  have n: "L = length p0 + length (concat cs)" "L \<le> unat lo + 256 * unat hi"
    using assms(4,5) by simp_all
  from command_feed [OF assms(1-3) refl n, of 2 "[]"] assms(4)
  obtain t where t: "feed (([2, lo, hi] @ p0) # cs) s = Some t" "progress 2 L ?p s L t"
    by auto
  have w: "written ?p L (leds s) (leds t)"
    using t(2) by (simp add: progress_def cursor_at_def)
  have a: "\<forall>i<LED_COUNT. i < ?K \<longrightarrow>
             leds t ! i = \<lparr>g = ?p ! (3 * i + 1), r = ?p ! (3 * i), b = ?p ! (3 * i + 2)\<rparr>"
  proof (intro allI impI)
    fix i assume i: "i < LED_COUNT" "i < ?K"
    then have "3 * i + 2 < L" by arith
    with written_full [OF w i(1)] show
      "leds t ! i = \<lparr>g = ?p ! (3 * i + 1), r = ?p ! (3 * i), b = ?p ! (3 * i + 2)\<rparr>" by simp
  qed
  have b: "\<forall>i<LED_COUNT. ?K < i \<longrightarrow> leds t ! i = leds s ! i"
  proof (intro allI impI)
    fix i assume i: "i < LED_COUNT" "?K < i"
    then have "L \<le> 3 * i" by arith
    with written_old [OF w i(1)] show "leds t ! i = leds s ! i" by simp
  qed
  have c: "r (leds t ! ?K) = ?p ! (3 * ?K) \<and>
           g (leds t ! ?K) = (if L mod 3 = 2 then ?p ! (3 * ?K + 1) else g (leds s ! ?K)) \<and>
           b (leds t ! ?K) = b (leds s ! ?K)" if k: "?K < LED_COUNT"
  proof -
    have "3 * ?K < L" "(3 * ?K + 1 < L) = (L mod 3 = 2)" "\<not> 3 * ?K + 2 < L"
      using assms(6) by arith+
    then show ?thesis using w k by (simp add: written_def)
  qed
  from t(1) a b c show ?thesis by blast
qed

theorem partial_group_is_stored_witness:
  "\<exists>t. feed [[2, 2, 0, 10, 20]] boot = Some t \<and> r (leds t ! 0) = 10 \<and> g (leds t ! 0) = 20 \<and>
     b (leds t ! 0) = b (leds boot ! 0) \<and> leds t ! 1 = leds boot ! 1"
proof -
  have h: "data_remaining boot = 0" "0 < length (in_buf boot)" "length (leds boot) = LED_COUNT"
    "2 = unat (2 :: u8) + 256 * unat (0 :: u8)"
    "length ([10, 20] @ concat ([] :: u8 list list)) = 2" "(2 :: nat) mod 3 \<noteq> 0"
    by (simp_all add: boot_fields LED_COUNT_def)
  from partial_group_is_stored [OF h] show ?thesis
    by (auto simp add: LED_COUNT_def)
qed

subsection \<open>The overflow guard\<close>

text \<open>
  C5. No run from power-on ever writes outside the pixel buffer (such a write is
  \<open>None\<close> in the model, as is every other access out of bounds), whatever the host sends
  and however polling and interrupts interleave. For a set-pixels command declaring
  more than \<open>LED_COUNT\<close> triples, after \<open>n\<close> payload bytes the write cursor is \<open>NULL\<close>
  exactly when \<open>n \<ge> 3 * LED_COUNT\<close>, that is from the byte that completes entry 127;
  from then on the buffer holds the first \<open>LED_COUNT\<close> triples whatever follows, the
  remaining bytes are still counted down, and the host sees nothing but the usual
  acknowledgment at the end of the command.
\<close>

theorem overflow_guard:
  assumes "power_on ep s0" and "2 \<le> ep" and "run es s0 = Some s" and "data_remaining s = 0"
    and "L = unat lo + 256 * unat hi" and "3 * LED_COUNT < L"
    and "n = length (p0 @ concat cs)" and "n \<le> L"
  shows "(\<forall>es'. run es' s0 \<noteq> None) \<and>
         (\<exists>t. feed (([2, lo, hi] @ p0) # cs) s = Some t \<and>
            wptr t = (if n < 3 * LED_COUNT then Some (3 * (n div 3)) else None) \<and>
            unat (data_remaining t) = L - n \<and>
            (3 * LED_COUNT \<le> n \<longrightarrow>
               (\<forall>i<LED_COUNT. leds t ! i = \<lparr>g = (p0 @ concat cs) ! (3 * i + 1),
                                             r = (p0 @ concat cs) ! (3 * i),
                                             b = (p0 @ concat cs) ! (3 * i + 2)\<rparr>)) \<and>
            ack_stream t = ack_stream s @ (if n = L then [0xFF] else []))"
proof -
  let ?p = "p0 @ concat cs"
  have i0: "sys_inv s0" using assms(1,2) by (rule power_on_inv)
  have safe: "\<forall>es'. run es' s0 \<noteq> None" using run_inv [OF i0] by auto
  from run_inv [OF i0, of es] assms(3) have "sys_inv s" by simp
  then have h: "0 < length (in_buf s)" "length (leds s) = LED_COUNT"
    by (auto simp add: sys_inv_def)
  have n: "n = length p0 + length (concat cs)" "n \<le> unat lo + 256 * unat hi"
    using assms(5,7,8) by simp_all
  from command_feed [OF assms(4) h refl n, of 2 "[]"] assms(5)
  obtain t where t: "feed (([2, lo, hi] @ p0) # cs) s = Some t" "progress 2 L ?p s n t"
    by auto
  have c: "cursor_at ?p (leds s) n t" using t(2) by (simp add: progress_def)
  then have w: "written ?p n (leds s) (leds t)" by (simp add: cursor_at_def)
  have a: "\<forall>i<LED_COUNT. leds t ! i = \<lparr>g = ?p ! (3 * i + 1), r = ?p ! (3 * i), b = ?p ! (3 * i + 2)\<rparr>"
    if "3 * LED_COUNT \<le> n"
  proof (intro allI impI)
    fix i assume i: "i < LED_COUNT"
    then have "3 * i + 2 < n" using that by simp
    from written_full [OF w i this]
    show "leds t ! i = \<lparr>g = ?p ! (3 * i + 1), r = ?p ! (3 * i), b = ?p ! (3 * i + 2)\<rparr>" .
  qed
  have k: "ack_stream t = ack_stream s @ (if n = L then [0xFF] else [])"
    using t(2) assms(6) by (auto simp: progress_def)
  have "unat (data_remaining t) = L - n" using t(2) by (simp add: progress_def)
  with safe t(1) c a k show ?thesis by (simp add: cursor_at_def)
qed

theorem overflow_guard_witness:
  "(\<forall>es'. run es' boot \<noteq> None) \<and>
   (\<exists>t. feed (([2, 0x83, 1] @ replicate 61 7) #
            [replicate 64 7, replicate 64 7, replicate 64 7, replicate 64 7, replicate 64 7,
             replicate 6 7]) boot = Some t \<and>
      wptr t = None \<and> data_remaining t = 0 \<and> leds t ! 127 = \<lparr>g = 7, r = 7, b = 7\<rparr> \<and>
      ack_stream t = [0xFF])"
proof -
  let ?cs = "[replicate 64 7, replicate 64 7, replicate 64 7, replicate 64 7, replicate 64 7,
              replicate 6 (7 :: u8)]"
  have p: "replicate 61 7 @ concat ?cs = replicate 387 (7 :: u8)"
    by (simp add: replicate_add [symmetric])
  have h: "run [] boot = Some boot" "data_remaining boot = 0"
    "387 = unat (0x83 :: u8) + 256 * unat (1 :: u8)" "3 * LED_COUNT < 387"
    "387 = length (replicate 61 (7 :: u8) @ concat ?cs)" "(387 :: nat) \<le> 387"
    by (simp_all add: boot_fields LED_COUNT_def)
  have "(2 :: nat) \<le> 64" by simp
  from overflow_guard [OF power_on_boot this h] show ?thesis
    unfolding p
    by (auto simp add: LED_COUNT_def ack_stream_def staged_def boot_fields
        unat_eq_0 [symmetric] simp del: unat_eq_0)
qed

subsection \<open>The staging buffer\<close>

text \<open>
  C10. In every state reached from power-on, with an endpoint buffer of at least two
  bytes: an iteration that receives a chunk first flushes the staged acknowledgments
  (the count is 0 when the chunk is processed), never writes beyond the endpoint buffer
  (the iteration returns), and stages at most two acknowledgments.
\<close>

theorem at_most_two_acks_per_chunk:
  assumes "power_on ep s0" and "2 \<le> ep" and "run es s0 = Some s"
  shows "toPC_count (flush_in s) = 0 \<and>
         (\<exists>t. main_iteration (OutData chunk) s = Some t \<and> unat (toPC_count t) \<le> 2 \<and>
            unat (toPC_count t) \<le> length (in_buf t))"
proof -
  from run_inv [OF power_on_inv [OF assms(1,2)], of es] assms(3) have "sys_inv s" by simp
  from main_iteration_inv [OF this, of "OutData chunk"] show ?thesis
    by (auto simp: toPC_count_flush sys_inv_def)
qed

theorem at_most_two_acks_per_chunk_witness:
  "\<exists>s. run [Poll (OutData [5, 2, 0, 1])] boot = Some s \<and> toPC_count (flush_in s) = 0 \<and>
     (\<exists>t. main_iteration (OutData [7, 1, 0, 9]) s = Some t \<and> unat (toPC_count t) \<le> 2 \<and>
        unat (toPC_count t) \<le> length (in_buf t))"
proof -
  have "\<exists>s. run [Poll (OutData [5, 2, 0, 1])] boot = Some s"
    using run_inv [OF power_on_inv [OF power_on_boot], of "[Poll (OutData [5, 2, 0, 1])]"] by auto
  then obtain s where s: "run [Poll (OutData [5, 2, 0, 1])] boot = Some s" ..
  from at_most_two_acks_per_chunk [OF power_on_boot _ s, of "[7, 1, 0, 9]"] s
  show ?thesis by simp
qed

subsection \<open>The emitter\<close>




subsection \<open>The activation flag\<close>

text \<open>
  C8, as the code has it. The decoder never reads GIE. After the set-pixels command
  \<open>[2, 3, 0, 10, 20, 30]\<close> and two of the 3072 interrupts, GIE is set and entry 0 holds
  the command's triple; a chunk with the header \<open>[2, 3, 0]\<close> and the payload byte \<open>1\<close>
  then overwrites channel \<open>r\<close> of entry 0 while GIE is still set.
\<close>

theorem activation_flag_counterexample:
  "map_option (\<lambda>s. (GIE s, leds s ! 0))
     (run [Poll (OutData [2, 3, 0, 10, 20, 30]), SpiDone, SpiDone] boot)
     = Some (True, \<lparr>g = 20, r = 10, b = 30\<rparr>) \<and>
   map_option (\<lambda>s. (GIE s, leds s ! 0))
     (run [Poll (OutData [2, 3, 0, 10, 20, 30]), SpiDone, SpiDone, Poll (OutData [2, 3, 0, 1])] boot)
     = Some (True, \<lparr>g = 20, r = 1, b = 30\<rparr>)"
  by (simp add: run_defs isr_defs)

text \<open>
  C8, amended. The decoder does not consult the activation flag: apart from the flag
  itself, what a byte does to the state (pixel writes included) is the same whether the
  flag is set or clear. The decoder sets the flag when it consumes the last payload byte
  of an opcode-2 command and never clears it.
\<close>

theorem decoder_ignores_activation_flag:
  "map_option (\<lambda>t. t\<lparr>GIE := True\<rparr>) (decode_byte index x (s\<lparr>GIE := f\<rparr>)) =
     map_option (\<lambda>t. t\<lparr>GIE := True\<rparr>) (decode_byte index x s) \<and>
   (\<forall>t. decode_byte index x s = Some t \<longrightarrow>
      GIE t = (GIE s \<or> command s = 2 \<and> data_remaining s = 1))"
proof -
  have "map_option (\<lambda>t. t\<lparr>GIE := True\<rparr>) (decode_byte index x (s\<lparr>GIE := f\<rparr>)) =
     map_option (\<lambda>t. t\<lparr>GIE := True\<rparr>) (decode_byte index x s)"
    by (simp add: decode_byte_flag option.map_comp comp_def)
  then show ?thesis using decode_byte_sets_flag by blast
qed

theorem decoder_ignores_activation_flag_witness:
  "\<exists>t. decode_byte 3 1 (boot\<lparr>command := 2, data_remaining := 3, wptr := Some 0, GIE := True\<rparr>) = Some t \<and>
     GIE t \<and> r (leds t ! 0) = 1 \<and> r (leds boot ! 0) = 0"
proof -
  let ?s = "boot\<lparr>command := 2, data_remaining := 3, wptr := Some 0, GIE := True\<rparr>"
  have "\<exists>t. decode_byte 3 1 ?s = Some t \<and> r (leds t ! 0) = 1 \<and> r (leds boot ! 0) = 0"
    by (simp add: run_defs)
  then obtain t where t: "decode_byte 3 1 ?s = Some t" "r (leds t ! 0) = 1" "r (leds boot ! 0) = 0"
    by blast
  from decoder_ignores_activation_flag [where s = ?s and index = 3 and x = 1 and f = True] t(1)
  have "GIE t" by simp
  with t show ?thesis by blast
qed

end
